theory Spec2Isabelle
  imports Main "HOL-Library.Word"
begin

section \<open>The voice service (lib/gemini-voice, two variants)\<close>

text \<open>
  The repository holds two variants of the class \<open>GeminiVoiceService\<close>. One stores the
  synthesised audio in a file under \<open>public/audio-responses\<close> before it records a
  response (called \<open>Durable\<close> below); the other records a response straight after the
  synthesis and writes nothing (called \<open>Ephemeral\<close> below). \<open>startSession\<close>,
  \<open>endSession\<close>, \<open>hasSession\<close>, \<open>getAudioResponses\<close>, \<open>getLatestAudioResponse\<close>,
  \<open>generateGeminiResponse\<close>, \<open>textToSpeech\<close> and the first half of
  \<open>processTranscription\<close> have the same text in both; they are modelled once.

  \<open>console.log\<close> output is diagnostic only and is left out; the \<open>console.error\<close> calls,
  by which the catch blocks report the errors they swallow, are recorded.
\<close>

subsection \<open>Data\<close>

datatype error = Error string

type_synonym buffer = "8 word list"

record message =
  role :: string
  content :: string

text \<open>A \<open>Date\<close> is kept as its number of milliseconds since the epoch.\<close>

record audioResponse =
  "text" :: string
  audioUrl :: string
  timestamp :: nat

text \<open>The field \<open>call\<close> holds the \<open>Call\<close> object; only its \<open>id\<close> is used, so it is kept as that id.\<close>

record GeminiVoiceSession =
  call :: string
  agentUserId :: string
  instructions :: string
  conversationHistory :: "message list"
  isProcessing :: bool
  audioResponses :: "audioResponse list"

text \<open>The variables of \<open>process.env\<close> the module reads; \<open>None\<close> is \<open>undefined\<close>.\<close>

record process_env =
  GOOGLE_CLOUD_KEYFILE :: "string option"
  GOOGLE_CLOUD_PROJECT_ID :: "string option"
  GEMINI_API_KEY :: "string option"
  GOOGLE_GENAI_API_KEY :: "string option"

text \<open>
  What the outside answers when an awaited promise settles, and what the clock reads in
  the code that runs next: \<open>generateContent\<close> stands for
  \<open>model.generateContent(prompt)\<close> followed by \<open>result.response\<close> and \<open>response.text()\<close>
  (an error when any of them throws), \<open>synthesizeSpeech\<close> for the \<open>audioContent\<close> of the
  text-to-speech reply (\<open>None\<close> when the reply has none), \<open>existsSync\<close>, \<open>mkdir\<close> and
  \<open>writeFile\<close> for the file system calls on the audio directory.
\<close>

record backends =
  generateContent :: "error + string"
  synthesizeSpeech :: "error + buffer option"
  existsSync :: bool
  mkdir :: "error + unit"
  writeFile :: "error + unit"
  dateNow :: nat
  newDate :: nat

text \<open>
  Session objects live in a store: the map \<open>sessions\<close> of the class holds references, and a
  call of \<open>processTranscription\<close> that is suspended at an \<open>await\<close> keeps the reference it
  looked up, whatever \<open>startSession\<close> or \<open>endSession\<close> do to the map meanwhile.
\<close>

type_synonym ref = nat

text \<open>
  Where a suspended call of \<open>processTranscription\<close> waits, with the local variables it
  still needs: \<open>geminiResponse\<close>, \<open>audioBuffer\<close>, \<open>audioFileName\<close>.
\<close>

datatype pc =
    AwaitGenerate
  | AwaitTextToSpeech string
  | AwaitEnsureAudioDir string buffer
  | AwaitWriteFile string buffer string

record task =
  t_session :: ref
  t_callId :: string
  t_text :: string
  t_pc :: pc

record world =
  sessions :: "string \<rightharpoonup> ref"
  heap :: "ref \<rightharpoonup> GeminiVoiceSession"
  nextRef :: ref
  tasks :: "task list"
  written :: "(string \<times> buffer) list"
  consoleErrors :: "(string \<times> error) list"

definition init :: world where
  "init = \<lparr> sessions = Map.empty, heap = Map.empty, nextRef = 0, tasks = [],
            written = [], consoleErrors = [] \<rparr>"

datatype impl = Durable | Ephemeral

subsection \<open>Clients\<close>

text \<open>\<open>!process.env.X\<close>: the variable is undefined or the empty string.\<close>

definition unset :: "string option \<Rightarrow> bool" where
  "unset v = (case v of None \<Rightarrow> True | Some s \<Rightarrow> s = [])"

datatype client = TextToSpeechClient

definition getTTSClient :: "process_env \<Rightarrow> client option" where
  "getTTSClient penv =
     (if unset (GOOGLE_CLOUD_KEYFILE penv) \<and> unset (GOOGLE_CLOUD_PROJECT_ID penv) then None
      else Some TextToSpeechClient)"

definition getGeminiClient :: "process_env \<Rightarrow> error + unit" where
  "getGeminiClient penv =
     (let apiKey = (if unset (GEMINI_API_KEY penv) then GOOGLE_GENAI_API_KEY penv
                    else GEMINI_API_KEY penv)
      in if unset apiKey then Inl (Error ''GEMINI_API_KEY or GOOGLE_GENAI_API_KEY is required'')
         else Inr ())"

subsection \<open>Generation and synthesis\<close>

text \<open>
  The promise of \<open>generateGeminiResponse\<close>, given what the backend answers: rejected when
  \<open>getGeminiClient\<close> throws or the backend fails, otherwise resolved with the text, an empty
  text replaced by the fixed apology.
\<close>

definition generateGeminiResponse :: "process_env \<Rightarrow> error + string \<Rightarrow> error + string" where
  "generateGeminiResponse penv answer =
     (case getGeminiClient penv of
        Inl e \<Rightarrow> Inl e
      | Inr _ \<Rightarrow>
          (case answer of
             Inl e \<Rightarrow> Inl e
           | Inr txt \<Rightarrow>
               Inr (if txt = [] then ''I apologize, but I could not generate a response.''
                    else txt)))"

text \<open>
  The promise of \<open>textToSpeech\<close>: \<open>null\<close> when no client is configured (the backend is not
  asked), rejected when the backend fails or its reply has no \<open>audioContent\<close>.
\<close>

definition textToSpeech :: "process_env \<Rightarrow> error + buffer option \<Rightarrow> error + buffer option" where
  "textToSpeech penv answer =
     (case getTTSClient penv of
        None \<Rightarrow> Inr None
      | Some _ \<Rightarrow>
          (case answer of
             Inl e \<Rightarrow> Inl e
           | Inr None \<Rightarrow> Inl (Error ''Failed to generate audio from text'')
           | Inr (Some audioContent) \<Rightarrow> Inr (Some audioContent)))"

text \<open>\<open>ensureAudioDir\<close>: \<open>mkdir\<close> is called only when the directory does not exist.\<close>

definition ensureAudioDir :: "backends \<Rightarrow> error + unit" where
  "ensureAudioDir b = (if \<not> existsSync b then mkdir b else Inr ())"

text \<open>A number inside a template string: its decimal digits.\<close>

function show_nat :: "nat \<Rightarrow> string" where
  "show_nat n =
     (if n < 10 then [''0123456789'' ! n]
      else show_nat (n div 10) @ [''0123456789'' ! (n mod 10)])"
  by pat_completeness auto
termination
  by (relation "measure id") auto

declare show_nat.simps [simp del]

definition audioFileName :: "string \<Rightarrow> nat \<Rightarrow> string" where
  "audioFileName cid now = cid @ ''-'' @ show_nat now @ ''.wav''"

definition audioUrlOf :: "string \<Rightarrow> string" where
  "audioUrlOf fileName = ''/audio-responses/'' @ fileName"

subsection \<open>The session registry\<close>

definition startSession :: "string \<Rightarrow> string \<Rightarrow> string \<Rightarrow> world \<Rightarrow> world" where
  "startSession sessionId agent instr w =
     w\<lparr> sessions := (sessions w)(sessionId \<mapsto> nextRef w),
         heap := (heap w)(nextRef w \<mapsto>
           \<lparr> call = sessionId, agentUserId = agent, instructions = instr,
             conversationHistory = [], isProcessing = False, audioResponses = [] \<rparr>),
         nextRef := Suc (nextRef w) \<rparr>"

definition endSession :: "string \<Rightarrow> world \<Rightarrow> world" where
  "endSession cid w = w\<lparr> sessions := (sessions w)(cid := None) \<rparr>"

definition hasSession :: "string \<Rightarrow> world \<Rightarrow> bool" where
  "hasSession cid w = (sessions w cid \<noteq> None)"

text \<open>\<open>this.sessions.get(callId)\<close>: the session object registered under the call id.\<close>

definition sessionOf :: "world \<Rightarrow> string \<Rightarrow> GeminiVoiceSession option" where
  "sessionOf w cid = (case sessions w cid of None \<Rightarrow> None | Some r \<Rightarrow> heap w r)"

definition getAudioResponses :: "string \<Rightarrow> world \<Rightarrow> audioResponse list" where
  "getAudioResponses cid w =
     (case sessionOf w cid of None \<Rightarrow> [] | Some s \<Rightarrow> audioResponses s)"

definition getLatestAudioResponse :: "string \<Rightarrow> world \<Rightarrow> string option" where
  "getLatestAudioResponse cid w =
     (case sessionOf w cid of
        None \<Rightarrow> None
      | Some s \<Rightarrow>
          if length (audioResponses s) = 0 then None
          else Some (audioUrl (audioResponses s ! (length (audioResponses s) - 1))))"

subsection \<open>processTranscription, piece by piece\<close>

text \<open>An assignment to, or a push on, the session object behind a reference.\<close>

definition onSession :: "ref \<Rightarrow> (GeminiVoiceSession \<Rightarrow> GeminiVoiceSession) \<Rightarrow> world \<Rightarrow> world" where
  "onSession r f w = w\<lparr> heap := (heap w)(r := map_option f (heap w r)) \<rparr>"

definition pushHistory :: "ref \<Rightarrow> message \<Rightarrow> world \<Rightarrow> world" where
  "pushHistory r m = onSession r (\<lambda>s. s\<lparr> conversationHistory := conversationHistory s @ [m] \<rparr>)"

definition pushResponse :: "ref \<Rightarrow> audioResponse \<Rightarrow> world \<Rightarrow> world" where
  "pushResponse r a = onSession r (\<lambda>s. s\<lparr> audioResponses := audioResponses s @ [a] \<rparr>)"

definition consoleError :: "string \<Rightarrow> error \<Rightarrow> world \<Rightarrow> world" where
  "consoleError label e w = w\<lparr> consoleErrors := consoleErrors w @ [(label, e)] \<rparr>"

text \<open>The \<open>finally\<close> block: \<open>session.isProcessing = false\<close>.\<close>

definition finallyBlock :: "ref \<Rightarrow> world \<Rightarrow> world" where
  "finallyBlock r = onSession r (\<lambda>s. s\<lparr> isProcessing := False \<rparr>)"

text \<open>The outer \<open>catch\<close> followed by \<open>finally\<close>.\<close>

definition catchBlock :: "ref \<Rightarrow> error \<Rightarrow> world \<Rightarrow> world" where
  "catchBlock r e w =
     finallyBlock r (consoleError ''[Gemini Voice] Error processing transcription:'' e w)"

text \<open>The inner \<open>catch (saveError)\<close>, after which the function runs on to \<open>finally\<close>.\<close>

definition catchSaveError :: "ref \<Rightarrow> error \<Rightarrow> world \<Rightarrow> world" where
  "catchSaveError r e w =
     finallyBlock r (consoleError ''[Gemini Voice] Error saving audio:'' e w)"

text \<open>
  From the call to the first \<open>await\<close>: the two early returns, then the flag, the user
  message, and the suspension on \<open>generateGeminiResponse\<close>.
\<close>

definition processTranscription_begin :: "string \<Rightarrow> string \<Rightarrow> string \<Rightarrow> world \<Rightarrow> world" where
  "processTranscription_begin cid transcriptionText speakerId w =
     (case sessions w cid of
        None \<Rightarrow> w
      | Some r \<Rightarrow>
          (case heap w r of
             None \<Rightarrow> w
           | Some s \<Rightarrow>
               if isProcessing s then w
               else if speakerId = agentUserId s then w
               else (pushHistory r \<lparr> role = ''user'', content = transcriptionText \<rparr>
                       (onSession r (\<lambda>s. s\<lparr> isProcessing := True \<rparr>) w))
                    \<lparr> tasks := tasks w @
                        [\<lparr> t_session = r, t_callId = cid, t_text = transcriptionText,
                           t_pc = AwaitGenerate \<rparr>] \<rparr>))"

text \<open>
  Each function below runs from one settled \<open>await\<close> to the next: it returns the new world
  and the next point of suspension, \<open>None\<close> when the call has run through \<open>finally\<close>.
\<close>

definition afterGenerate :: "process_env \<Rightarrow> backends \<Rightarrow> ref \<Rightarrow> world \<Rightarrow> world \<times> pc option" where
  "afterGenerate penv b r w =
     (case generateGeminiResponse penv (generateContent b) of
        Inl e \<Rightarrow> (catchBlock r e w, None)
      | Inr geminiResponse \<Rightarrow>
          (pushHistory r \<lparr> role = ''assistant'', content = geminiResponse \<rparr> w,
           Some (AwaitTextToSpeech geminiResponse)))"

definition afterTextToSpeech_disk ::
    "process_env \<Rightarrow> backends \<Rightarrow> ref \<Rightarrow> string \<Rightarrow> world \<Rightarrow> world \<times> pc option" where
  "afterTextToSpeech_disk penv b r geminiResponse w =
     (case textToSpeech penv (synthesizeSpeech b) of
        Inl e \<Rightarrow> (catchBlock r e w, None)
      | Inr (Some audioBuffer) \<Rightarrow> (w, Some (AwaitEnsureAudioDir geminiResponse audioBuffer))
      | Inr None \<Rightarrow>
          (finallyBlock r
             (pushResponse r
                \<lparr> text = geminiResponse, audioUrl = '''', timestamp = newDate b \<rparr> w),
           None))"

definition afterEnsureAudioDir ::
    "backends \<Rightarrow> ref \<Rightarrow> string \<Rightarrow> string \<Rightarrow> buffer \<Rightarrow> world \<Rightarrow> world \<times> pc option" where
  "afterEnsureAudioDir b r cid geminiResponse audioBuffer w =
     (case ensureAudioDir b of
        Inl e \<Rightarrow> (catchSaveError r e w, None)
      | Inr _ \<Rightarrow>
          (w, Some (AwaitWriteFile geminiResponse audioBuffer (audioFileName cid (dateNow b)))))"

definition afterWriteFile ::
    "backends \<Rightarrow> ref \<Rightarrow> string \<Rightarrow> buffer \<Rightarrow> string \<Rightarrow> world \<Rightarrow> world \<times> pc option" where
  "afterWriteFile b r geminiResponse audioBuffer fileName w =
     (case writeFile b of
        Inl e \<Rightarrow> (catchSaveError r e w, None)
      | Inr _ \<Rightarrow>
          (finallyBlock r
             (pushResponse r
                \<lparr> text = geminiResponse, audioUrl = audioUrlOf fileName,
                  timestamp = newDate b \<rparr>
                (w\<lparr> written := written w @ [(fileName, audioBuffer)] \<rparr>)),
           None))"

definition afterTextToSpeech_mem ::
    "process_env \<Rightarrow> backends \<Rightarrow> ref \<Rightarrow> string \<Rightarrow> string \<Rightarrow> world \<Rightarrow> world \<times> pc option" where
  "afterTextToSpeech_mem penv b r cid geminiResponse w =
     (case textToSpeech penv (synthesizeSpeech b) of
        Inl e \<Rightarrow> (catchBlock r e w, None)
      | Inr audioBuffer \<Rightarrow>
          (finallyBlock r
             (pushResponse r
                \<lparr> text = geminiResponse,
                  audioUrl = audioUrlOf (audioFileName cid (dateNow b)),
                  timestamp = newDate b \<rparr> w),
           None))"

text \<open>
  Resuming a suspended call. Only the code after the synthesis differs between the two
  variants; the two file system suspensions arise in the durable one only.
\<close>

definition resume :: "impl \<Rightarrow> process_env \<Rightarrow> backends \<Rightarrow> task \<Rightarrow> world \<Rightarrow> world \<times> pc option" where
  "resume i penv b t w =
     (case t_pc t of
        AwaitGenerate \<Rightarrow> afterGenerate penv b (t_session t) w
      | AwaitTextToSpeech geminiResponse \<Rightarrow>
          (case i of
             Durable \<Rightarrow> afterTextToSpeech_disk penv b (t_session t) geminiResponse w
           | Ephemeral \<Rightarrow>
               afterTextToSpeech_mem penv b (t_session t) (t_callId t) geminiResponse w)
      | AwaitEnsureAudioDir geminiResponse audioBuffer \<Rightarrow>
          afterEnsureAudioDir b (t_session t) (t_callId t) geminiResponse audioBuffer w
      | AwaitWriteFile geminiResponse audioBuffer fileName \<Rightarrow>
          afterWriteFile b (t_session t) geminiResponse audioBuffer fileName w)"

subsection \<open>Interleaved executions\<close>

text \<open>
  What can happen to the service: a call of one of its three methods, which runs to its
  first \<open>await\<close> (\<open>startSession\<close> and \<open>endSession\<close> have none), or the settling of the promise
  that the suspended call number \<open>k\<close> waits for.
\<close>

datatype event =
    StartSession string string string
  | EndSession string
  | ProcessTranscription string string string
  | Settle nat backends

definition settle :: "impl \<Rightarrow> process_env \<Rightarrow> nat \<Rightarrow> backends \<Rightarrow> world \<Rightarrow> world" where
  "settle i penv k b w =
     (if k < length (tasks w) then
        (case resume i penv b (tasks w ! k) w of
           (w', None) \<Rightarrow> w'\<lparr> tasks := take k (tasks w') @ drop (Suc k) (tasks w') \<rparr>
         | (w', Some p) \<Rightarrow> w'\<lparr> tasks := (tasks w')[k := (tasks w' ! k)\<lparr> t_pc := p \<rparr>] \<rparr>)
      else w)"

fun step :: "impl \<Rightarrow> process_env \<Rightarrow> world \<Rightarrow> event \<Rightarrow> world" where
  "step i penv w (StartSession cid agent instr) = startSession cid agent instr w"
| "step i penv w (EndSession cid) = endSession cid w"
| "step i penv w (ProcessTranscription cid txt speakerId) =
     processTranscription_begin cid txt speakerId w"
| "step i penv w (Settle k b) = settle i penv k b w"

definition run :: "impl \<Rightarrow> process_env \<Rightarrow> world \<Rightarrow> event list \<Rightarrow> world" where
  "run i penv w evs = foldl (step i penv) w evs"

text \<open>
  A call of \<open>processTranscription\<close> that is awaited with nothing else in between: the call,
  then its promises settle one after the other (it has at most four) with the answers \<open>b\<close>.
\<close>

definition processTranscription ::
    "impl \<Rightarrow> process_env \<Rightarrow> backends \<Rightarrow> string \<Rightarrow> string \<Rightarrow> string \<Rightarrow> world \<Rightarrow> world" where
  "processTranscription i penv b cid transcriptionText speakerId w =
     (let k = length (tasks w)
      in run i penv (processTranscription_begin cid transcriptionText speakerId w)
           [Settle k b, Settle k b, Settle k b, Settle k b])"


definition inFlightOn :: "world \<Rightarrow> ref \<Rightarrow> nat" where
  "inFlightOn w r = length (filter (\<lambda>t. t_session t = r) (tasks w))"



text \<open>
  What the store of a running service always looks like: references are allocated in
  order, none dangles, no two suspended calls hold the same session object, and a session
  object is flagged busy exactly while a suspended call holds it.
\<close>

definition consistent :: "world \<Rightarrow> bool" where
  "consistent w \<longleftrightarrow>
     (\<forall>r. (heap w r \<noteq> None) = (r < nextRef w)) \<and>
     (\<forall>c r. sessions w c = Some r \<longrightarrow> r < nextRef w) \<and>
     (\<forall>t \<in> set (tasks w). t_session t < nextRef w) \<and>
     distinct (map t_session (tasks w)) \<and>
     (\<forall>r s. heap w r = Some s \<longrightarrow> isProcessing s = (r \<in> t_session ` set (tasks w)))"


text \<open>The promises a suspended call may still have to wait for, counting the current one.\<close>

fun awaitsLeft :: "pc \<Rightarrow> nat" where
  "awaitsLeft AwaitGenerate = 4"
| "awaitsLeft (AwaitTextToSpeech g) = 3"
| "awaitsLeft (AwaitEnsureAudioDir g a) = 2"
| "awaitsLeft (AwaitWriteFile g a f) = 1"

text \<open>The user entries of a history.\<close>

definition userTurns :: "message list \<Rightarrow> message list" where
  "userTurns h = filter (\<lambda>m. role m = ''user'') h"

subsection \<open>Calls awaited one after the other\<close>

datatype call =
    Start string string string
  | End string
  | Process string string string backends

fun perform :: "impl \<Rightarrow> process_env \<Rightarrow> world \<Rightarrow> call \<Rightarrow> world" where
  "perform i penv w (Start cid agent instr) = startSession cid agent instr w"
| "perform i penv w (End cid) = endSession cid w"
| "perform i penv w (Process cid txt speakerId b) = processTranscription i penv b cid txt speakerId w"

definition performAll :: "impl \<Rightarrow> process_env \<Rightarrow> world \<Rightarrow> call list \<Rightarrow> world" where
  "performAll i penv w cs = foldl (perform i penv) w cs"

text \<open>
  The entries one turn is expected to leave in the history: the user entry with the
  fragment, followed by the assistant entry with the generated response when the
  generation succeeded.
\<close>

definition generated :: "process_env \<Rightarrow> backends \<Rightarrow> bool" where
  "generated penv b =
     (case generateGeminiResponse penv (generateContent b) of Inl e \<Rightarrow> False | Inr g \<Rightarrow> True)"

definition turnHistory :: "process_env \<Rightarrow> backends \<Rightarrow> string \<Rightarrow> message list" where
  "turnHistory penv b txt =
     \<lparr> role = ''user'', content = txt \<rparr> #
     (case generateGeminiResponse penv (generateContent b) of
        Inl e \<Rightarrow> []
      | Inr g \<Rightarrow> [\<lparr> role = ''assistant'', content = g \<rparr>])"

text \<open>
  Whether a call starts or ends the session \<open>cid\<close>; the entries a call is expected to add
  to the history of the session \<open>cid\<close> with agent \<open>agent\<close> (a fragment for another call id,
  or spoken by the agent, adds none); and whether a call is an accepted turn of that
  session whose generation succeeds, or fails.
\<close>

fun restarts :: "string \<Rightarrow> call \<Rightarrow> bool" where
  "restarts cid (Start c a instr) = (c = cid)"
| "restarts cid (End c) = (c = cid)"
| "restarts cid (Process c txt speakerId b) = False"

fun turnOf :: "process_env \<Rightarrow> string \<Rightarrow> string \<Rightarrow> call \<Rightarrow> message list" where
  "turnOf penv cid agent (Process c txt speakerId b) =
     (if c = cid \<and> speakerId \<noteq> agent then turnHistory penv b txt else [])"
| "turnOf penv cid agent (Start c a instr) = []"
| "turnOf penv cid agent (End c) = []"

fun succeeds :: "process_env \<Rightarrow> string \<Rightarrow> string \<Rightarrow> call \<Rightarrow> bool" where
  "succeeds penv cid agent (Process c txt speakerId b) =
     (c = cid \<and> speakerId \<noteq> agent \<and> generated penv b)"
| "succeeds penv cid agent (Start c a instr) = False"
| "succeeds penv cid agent (End c) = False"

fun fails :: "process_env \<Rightarrow> string \<Rightarrow> string \<Rightarrow> call \<Rightarrow> bool" where
  "fails penv cid agent (Process c txt speakerId b) =
     (c = cid \<and> speakerId \<noteq> agent \<and> \<not> generated penv b)"
| "fails penv cid agent (Start c a instr) = False"
| "fails penv cid agent (End c) = False"

text \<open>The artifact writes of a call succeed: the directory is there or made, the file written.\<close>

fun writesSucceed :: "call \<Rightarrow> bool" where
  "writesSucceed (Process c txt speakerId b) = (ensureAudioDir b = Inr () \<and> writeFile b = Inr ())"
| "writesSucceed (Start c a instr) = True"
| "writesSucceed (End c) = True"

text \<open>A session object registered under a call id was started for that call id.\<close>

definition registered :: "world \<Rightarrow> bool" where
  "registered w \<longleftrightarrow> (\<forall>c r s. sessions w c = Some r \<longrightarrow> heap w r = Some s \<longrightarrow> call s = c)"

text \<open>
  The text and the error a turn is expected to record when its artifact writes succeed:
  the generated text when generation and synthesis raise nothing, and the error of the
  first of the two that raises.
\<close>

definition turnTexts :: "process_env \<Rightarrow> backends \<Rightarrow> string list" where
  "turnTexts penv b =
     (case generateGeminiResponse penv (generateContent b) of
        Inl e \<Rightarrow> []
      | Inr g \<Rightarrow> (case textToSpeech penv (synthesizeSpeech b) of Inl e \<Rightarrow> [] | Inr a \<Rightarrow> [g]))"

definition turnErrors :: "process_env \<Rightarrow> backends \<Rightarrow> (string \<times> error) list" where
  "turnErrors penv b =
     (case generateGeminiResponse penv (generateContent b) of
        Inl e \<Rightarrow> [(''[Gemini Voice] Error processing transcription:'', e)]
      | Inr g \<Rightarrow>
          (case textToSpeech penv (synthesizeSpeech b) of
             Inl e \<Rightarrow> [(''[Gemini Voice] Error processing transcription:'', e)]
           | Inr a \<Rightarrow> []))"

text \<open>
  Two sessions, and two worlds, that agree on everything but the \<open>audioUrl\<close> of the responses
  recorded and the files written.
\<close>

definition similarSession :: "GeminiVoiceSession \<Rightarrow> GeminiVoiceSession \<Rightarrow> bool" where
  "similarSession s s' \<longleftrightarrow>
     call s = call s' \<and> agentUserId s = agentUserId s' \<and> instructions s = instructions s' \<and>
     conversationHistory s = conversationHistory s' \<and> isProcessing s = isProcessing s' \<and>
     map text (audioResponses s) = map text (audioResponses s') \<and>
     map timestamp (audioResponses s) = map timestamp (audioResponses s')"

definition sameUpToAudio :: "world \<Rightarrow> world \<Rightarrow> bool" where
  "sameUpToAudio w w' \<longleftrightarrow>
     sessions w = sessions w' \<and> nextRef w = nextRef w' \<and> tasks w = tasks w' \<and>
     consoleErrors w = consoleErrors w' \<and>
     (\<forall>r. rel_option similarSession (heap w r) (heap w' r))"

subsection \<open>Turns of an interleaved execution\<close>

text \<open>
  What an event does to the session object \<open>r\<close>, read off \<open>processTranscription\<close>. A call is
  accepted on \<open>r\<close> when \<open>r\<close> is the object registered under the call id, it is not busy and the
  speaker is not its agent; every other call returns at once, its fragment dropped. The
  promise of a suspended call on \<open>r\<close> that waits for the generation settles with a response
  (\<open>generates\<close>) or with an error (\<open>misfires\<close>).
\<close>

fun accepts :: "world \<Rightarrow> event \<Rightarrow> ref \<Rightarrow> bool" where
  "accepts w (ProcessTranscription cid txt speakerId) r =
     (sessions w cid = Some r \<and>
      (case heap w r of None \<Rightarrow> False
       | Some s \<Rightarrow> \<not> isProcessing s \<and> speakerId \<noteq> agentUserId s))"
| "accepts w (StartSession cid agent instr) r = False"
| "accepts w (EndSession cid) r = False"
| "accepts w (Settle k b) r = False"

fun generates :: "process_env \<Rightarrow> world \<Rightarrow> event \<Rightarrow> ref \<Rightarrow> bool" where
  "generates penv w (Settle k b) r =
     (k < length (tasks w) \<and> t_session (tasks w ! k) = r \<and> t_pc (tasks w ! k) = AwaitGenerate \<and>
      generated penv b)"
| "generates penv w (StartSession cid agent instr) r = False"
| "generates penv w (EndSession cid) r = False"
| "generates penv w (ProcessTranscription cid txt speakerId) r = False"

fun misfires :: "process_env \<Rightarrow> world \<Rightarrow> event \<Rightarrow> ref \<Rightarrow> bool" where
  "misfires penv w (Settle k b) r =
     (k < length (tasks w) \<and> t_session (tasks w ! k) = r \<and> t_pc (tasks w ! k) = AwaitGenerate \<and>
      \<not> generated penv b)"
| "misfires penv w (StartSession cid agent instr) r = False"
| "misfires penv w (EndSession cid) r = False"
| "misfires penv w (ProcessTranscription cid txt speakerId) r = False"

text \<open>
  The entries an event pushes on the history of \<open>r\<close>: the user entry of an accepted fragment,
  the assistant entry of a generation that succeeded; and those of a trace, in its order.
\<close>

fun entry :: "process_env \<Rightarrow> world \<Rightarrow> event \<Rightarrow> ref \<Rightarrow> message list" where
  "entry penv w (ProcessTranscription cid txt speakerId) r =
     (if accepts w (ProcessTranscription cid txt speakerId) r
      then [\<lparr> role = ''user'', content = txt \<rparr>] else [])"
| "entry penv w (Settle k b) r =
     (if generates penv w (Settle k b) r
      then (case generateGeminiResponse penv (generateContent b) of
              Inl e \<Rightarrow> [] | Inr g \<Rightarrow> [\<lparr> role = ''assistant'', content = g \<rparr>])
      else [])"
| "entry penv w (StartSession cid agent instr) r = []"
| "entry penv w (EndSession cid) r = []"

fun entries :: "impl \<Rightarrow> process_env \<Rightarrow> world \<Rightarrow> event list \<Rightarrow> ref \<Rightarrow> message list" where
  "entries i penv w [] r = []"
| "entries i penv w (e # es) r = entry penv w e r @ entries i penv (step i penv w e) es r"

text \<open>
  The fragments accepted on \<open>r\<close> along a trace, the generations on \<open>r\<close> that succeeded and
  that failed along it, and the suspended calls on \<open>r\<close> that still wait for their generation.
\<close>

fun acceptedOn :: "impl \<Rightarrow> process_env \<Rightarrow> world \<Rightarrow> event list \<Rightarrow> ref \<Rightarrow> nat" where
  "acceptedOn i penv w [] r = 0"
| "acceptedOn i penv w (e # es) r =
     (if accepts w e r then 1 else 0) + acceptedOn i penv (step i penv w e) es r"

fun generatedOn :: "impl \<Rightarrow> process_env \<Rightarrow> world \<Rightarrow> event list \<Rightarrow> ref \<Rightarrow> nat" where
  "generatedOn i penv w [] r = 0"
| "generatedOn i penv w (e # es) r =
     (if generates penv w e r then 1 else 0) + generatedOn i penv (step i penv w e) es r"

fun failedOn :: "impl \<Rightarrow> process_env \<Rightarrow> world \<Rightarrow> event list \<Rightarrow> ref \<Rightarrow> nat" where
  "failedOn i penv w [] r = 0"
| "failedOn i penv w (e # es) r =
     (if misfires penv w e r then 1 else 0) + failedOn i penv (step i penv w e) es r"

definition pendingOn :: "world \<Rightarrow> ref \<Rightarrow> nat" where
  "pendingOn w r = length (filter (\<lambda>t. t_session t = r \<and> t_pc t = AwaitGenerate) (tasks w))"

text \<open>An event that starts or ends the session \<open>cid\<close>, and so changes the object registered.\<close>

fun reregisters :: "string \<Rightarrow> event \<Rightarrow> bool" where
  "reregisters cid (StartSession c agent instr) = (c = cid)"
| "reregisters cid (EndSession c) = (c = cid)"
| "reregisters cid (ProcessTranscription c txt speakerId) = False"
| "reregisters cid (Settle k b) = False"

text \<open>
  A history made of turns: each turn is a user entry, followed or not by an assistant
  entry. A session object is well turned when its history is made of turns and, while a
  call waits for its generation, ends with the user entry of that call.
\<close>

fun turns :: "message list \<Rightarrow> bool" where
  "turns [] = True"
| "turns [m] = (role m = ''user'')"
| "turns (m # n # ms) =
     (role m = ''user'' \<and> (if role n = ''assistant'' then turns ms else turns (n # ms)))"

definition wellTurned :: "world \<Rightarrow> ref \<Rightarrow> bool" where
  "wellTurned w r \<longleftrightarrow>
     (\<exists>s. heap w r = Some s \<and> turns (conversationHistory s) \<and>
        (0 < pendingOn w r \<longrightarrow>
           conversationHistory s \<noteq> [] \<and> role (last (conversationHistory s)) = ''user''))"

subsection \<open>A configuration, answers and a session to compute with\<close>

definition exampleEnv :: process_env where
  "exampleEnv = \<lparr> GOOGLE_CLOUD_KEYFILE = Some ''key.json'', GOOGLE_CLOUD_PROJECT_ID = Some ''demo'',
                  GEMINI_API_KEY = Some ''secret'', GOOGLE_GENAI_API_KEY = None \<rparr>"

definition textOnlyEnv :: process_env where
  "textOnlyEnv = \<lparr> GOOGLE_CLOUD_KEYFILE = None, GOOGLE_CLOUD_PROJECT_ID = None,
                   GEMINI_API_KEY = Some ''secret'', GOOGLE_GENAI_API_KEY = None \<rparr>"

definition exampleAnswers :: backends where
  "exampleAnswers = \<lparr> generateContent = Inr ''It is sunny.'',
                      synthesizeSpeech = Inr (Some [82, 73, 70, 70]),
                      existsSync = True, mkdir = Inr (), writeFile = Inr (),
                      dateNow = 5, newDate = 6 \<rparr>"

definition exampleWorld :: world where
  "exampleWorld = startSession ''call-1'' ''agent-x'' ''Be concise.'' init"

section \<open>The retrieval endpoint (GET /api/gemini-audio/[meetingId])\<close>

text \<open>
  The JSON bodies the handler sends. \<open>toISOString\<close> of a timestamp is kept as the timestamp
  it renders.
\<close>

datatype iso8601 = ISOString nat

datatype json =
    ErrorJson string
  | NoAudioJson
  | LatestJson string string iso8601

record response =
  status :: nat
  body :: json

text \<open>
  \<open>params\<close> is the awaited promise of the route parameters: rejected, or an object whose
  \<open>meetingId\<close> may be missing. The handler reads the sessions of the service and adds to the
  error log at most.
\<close>

definition GET :: "error + string option \<Rightarrow> world \<Rightarrow> world \<times> response" where
  "GET params w =
     (case params of
        Inl e \<Rightarrow>
          (consoleError ''[Gemini Audio API] Error:'' e w,
           \<lparr> status = 500, body = ErrorJson ''Failed to get audio response'' \<rparr>)
      | Inr meetingId \<Rightarrow>
          if unset meetingId then (w, \<lparr> status = 400, body = ErrorJson ''Missing meetingId'' \<rparr>)
          else
            (let rs = getAudioResponses (case meetingId of Some m \<Rightarrow> m | None \<Rightarrow> []) w
             in if length rs = 0 then (w, \<lparr> status = 200, body = NoAudioJson \<rparr>)
                else
                  (let latest = rs ! (length rs - 1)
                   in (w, \<lparr> status = 200,
                            body = LatestJson (audioUrl latest) (text latest)
                                     (ISOString (timestamp latest)) \<rparr>))))"

section \<open>The playback poller (GeminiAudioPlayer)\<close>














section \<open>Properties of the voice service\<close>

subsection \<open>Auxiliary facts\<close>

lemmas block_defs = catchBlock_def catchSaveError_def finallyBlock_def consoleError_def
  pushHistory_def pushResponse_def onSession_def

lemmas after_defs = afterGenerate_def afterTextToSpeech_disk_def afterTextToSpeech_mem_def
  afterEnsureAudioDir_def afterWriteFile_def

lemma resume_frame:
  assumes "resume i penv b t w = (w', po)"
  shows "sessions w' = sessions w \<and> nextRef w' = nextRef w \<and> tasks w' = tasks w \<and>
         (\<forall>r. r \<noteq> t_session t \<longrightarrow> heap w' r = heap w r) \<and>
         (heap w' (t_session t) = None) = (heap w (t_session t) = None)"
  using assms
  by (auto simp: resume_def after_defs block_defs split: pc.splits impl.splits sum.splits option.splits)

lemma resume_flag:
  assumes "resume i penv b t w = (w', po)" "heap w (t_session t) = Some s"
  shows "\<exists>s'. heap w' (t_session t) = Some s' \<and>
           isProcessing s' = (if po = None then False else isProcessing s)"
  using assms
  by (auto simp: resume_def after_defs block_defs split: pc.splits impl.splits sum.splits option.splits)

lemma consistent_init: "consistent init"
  by (simp add: consistent_def init_def)

lemma consistent_startSession: "consistent w \<Longrightarrow> consistent (startSession c a ins w)"
  unfolding consistent_def startSession_def
  by (auto simp: less_Suc_eq)

lemma consistent_endSession: "consistent w \<Longrightarrow> consistent (endSession c w)"
  unfolding consistent_def endSession_def by (auto split: if_splits)

lemma consistent_begin: "consistent w \<Longrightarrow> consistent (processTranscription_begin c txt sp w)"
  unfolding consistent_def processTranscription_begin_def
  by (auto simp: block_defs split: option.splits)


lemma map_session_update:
  "k < length ts \<Longrightarrow> map t_session (ts[k := (ts ! k)\<lparr> t_pc := p \<rparr>]) = map t_session ts"
  by (simp add: map_update list_update_same_conv)

lemma distinct_remove_nth:
  assumes "distinct (map f ts)" "k < length ts"
  shows "distinct (map f (take k ts @ drop (Suc k) ts))"
    and "f (ts ! k) \<notin> f ` set (take k ts @ drop (Suc k) ts)"
proof -
  have ts: "ts = take k ts @ ts ! k # drop (Suc k) ts"
    using assms(2) by (simp add: id_take_nth_drop)
  have "distinct (map f (take k ts @ ts ! k # drop (Suc k) ts))"
    using assms(1) ts by simp
  then show "distinct (map f (take k ts @ drop (Suc k) ts))"
    and "f (ts ! k) \<notin> f ` set (take k ts @ drop (Suc k) ts)"
    by auto
qed

lemma set_remove_nth:
  assumes "k < length ts"
  shows "set ts = insert (ts ! k) (set (take k ts @ drop (Suc k) ts))"
proof -
  have "ts = take k ts @ ts ! k # drop (Suc k) ts"
    using assms by (simp add: id_take_nth_drop)
  then have "set ts = set (take k ts @ ts ! k # drop (Suc k) ts)" by simp
  then show ?thesis by simp
qed

lemma consistent_settle:
  assumes "consistent w"
  shows "consistent (settle i penv k b w)"
proof (cases "k < length (tasks w)")
  case False
  then show ?thesis using assms by (simp add: settle_def)
next
  case True
  define t where "t = tasks w ! k"
  obtain w' po where res: "resume i penv b t w = (w', po)" by (cases "resume i penv b t w")
  note fr = resume_frame[OF res]
  have tin: "t \<in> set (tasks w)" using True t_def by simp
  from assms have h: "\<forall>r. (heap w r \<noteq> None) = (r < nextRef w)"
    and sr: "\<forall>c r. sessions w c = Some r \<longrightarrow> r < nextRef w"
    and tr: "\<forall>t \<in> set (tasks w). t_session t < nextRef w"
    and di: "distinct (map t_session (tasks w))"
    and fl: "\<forall>r s. heap w r = Some s \<longrightarrow> isProcessing s = (r \<in> t_session ` set (tasks w))"
    by (simp_all add: consistent_def)
  from tr tin h obtain s where hs: "heap w (t_session t) = Some s" by fastforce
  from resume_flag[OF res hs] obtain s' where
    hs': "heap w' (t_session t) = Some s'"
    and ip: "isProcessing s' = (if po = None then False else isProcessing s)" by blast
  have heap': "\<forall>r. (heap w' r \<noteq> None) = (r < nextRef w)"
    using fr h by metis
  show ?thesis
  proof (cases po)
    case None
    let ?ts = "take k (tasks w) @ drop (Suc k) (tasks w)"
    have eq: "settle i penv k b w = w'\<lparr> tasks := ?ts \<rparr>"
      using True res None fr by (simp add: settle_def t_def)
    have d1: "distinct (map t_session ?ts)" and d2: "t_session t \<notin> t_session ` set ?ts"
      using distinct_remove_nth[OF di True] by (simp_all add: t_def)
    have st: "set (tasks w) = insert t (set ?ts)"
      using set_remove_nth[OF True] by (simp add: t_def)
    have sub: "\<forall>u \<in> set ?ts. t_session u < nextRef w"
      using tr st by blast
    have flag: "\<forall>r s0. heap w' r = Some s0 \<longrightarrow> isProcessing s0 = (r \<in> t_session ` set ?ts)"
    proof (intro allI impI)
      fix r s0 assume a: "heap w' r = Some s0"
      show "isProcessing s0 = (r \<in> t_session ` set ?ts)"
      proof (cases "r = t_session t")
        case True
        then show ?thesis using a hs' ip None d2 by simp
      next
        case False
        then have "heap w r = Some s0" using a fr by simp
        then have "isProcessing s0 = (r \<in> t_session ` set (tasks w))" using fl by blast
        then show ?thesis using st False by auto
      qed
    qed
    have "consistent (w'\<lparr> tasks := ?ts \<rparr>)"
      unfolding consistent_def using heap' sr sub d1 flag fr by simp
    then show ?thesis using eq by simp
  next
    case (Some p)
    let ?ts = "(tasks w)[k := (tasks w ! k)\<lparr> t_pc := p \<rparr>]"
    have eq: "settle i penv k b w = w'\<lparr> tasks := ?ts \<rparr>"
      using True res Some fr by (simp add: settle_def t_def)
    have m: "map t_session ?ts = map t_session (tasks w)"
      using True by (rule map_session_update)
    have im: "t_session ` set ?ts = t_session ` set (tasks w)"
      using m by (metis set_map)
    have flag: "\<forall>r s0. heap w' r = Some s0 \<longrightarrow> isProcessing s0 = (r \<in> t_session ` set (tasks w))"
    proof (intro allI impI)
      fix r s0 assume a: "heap w' r = Some s0"
      show "isProcessing s0 = (r \<in> t_session ` set (tasks w))"
      proof (cases "r = t_session t")
        case True
        then show ?thesis using a hs' ip Some fl hs by auto
      next
        case False
        then have "heap w r = Some s0" using a fr by simp
        then show ?thesis using fl by blast
      qed
    qed
    have sub: "\<forall>u \<in> set ?ts. t_session u < nextRef w"
    proof
      fix u assume "u \<in> set ?ts"
      then have "t_session u \<in> t_session ` set (tasks w)" using im by blast
      then show "t_session u < nextRef w" using tr by auto
    qed
    have d': "distinct (map t_session ?ts)" using m di by simp
    have flag': "\<forall>r s0. heap w' r = Some s0 \<longrightarrow> isProcessing s0 = (r \<in> t_session ` set ?ts)"
      using flag im by simp
    have "consistent (w'\<lparr> tasks := ?ts \<rparr>)"
      unfolding consistent_def using heap' sr sub d' flag' fr by simp
    then show ?thesis using eq by simp
  qed
qed

lemma consistent_step: "consistent w \<Longrightarrow> consistent (step i penv w e)"
  by (cases e) (simp_all add: consistent_startSession consistent_endSession consistent_begin consistent_settle)

lemma consistent_run: "consistent w \<Longrightarrow> consistent (run i penv w evs)"
  unfolding run_def by (induction evs arbitrary: w) (simp_all add: consistent_step)

lemma distinct_filter_le_1:
  "distinct (map f xs) \<Longrightarrow> length (filter (\<lambda>t. f t = r) xs) \<le> 1"
  by (induction xs) (auto simp: filter_empty_conv image_iff)

lemma inFlightOn_le_1: "consistent w \<Longrightarrow> inFlightOn w r \<le> 1"
  unfolding inFlightOn_def by (rule distinct_filter_le_1) (simp add: consistent_def)


lemmas call_defs = processTranscription_def processTranscription_begin_def run_def settle_def
  resume_def after_defs block_defs

lemma pt_dropped:
  assumes "sessions w cid = None \<or>
     (\<exists>r s. sessions w cid = Some r \<and> heap w r = Some s \<and> (isProcessing s \<or> sp = agentUserId s))"
  shows "processTranscription i penv b cid txt sp w = w"
  using assms by (auto simp add: call_defs)

lemma pt_accepted_session:
  assumes "sessions w cid = Some r" "heap w r = Some s" "\<not> isProcessing s" "sp \<noteq> agentUserId s"
  shows "\<exists>s'. heap (processTranscription i penv b cid txt sp w) r = Some s' \<and>
            conversationHistory s' = conversationHistory s @ turnHistory penv b txt \<and>
            \<not> isProcessing s' \<and> agentUserId s' = agentUserId s \<and>
            instructions s' = instructions s \<and> call s' = call s"
  using assms
  by (cases i)
     (auto simp add: call_defs turnHistory_def split: sum.splits option.splits)

lemma pt_frame:
  "sessions (processTranscription i penv b cid txt sp w) = sessions w \<and>
   nextRef (processTranscription i penv b cid txt sp w) = nextRef w \<and>
   tasks (processTranscription i penv b cid txt sp w) = tasks w \<and>
   (\<forall>r. sessions w cid \<noteq> Some r \<longrightarrow> heap (processTranscription i penv b cid txt sp w) r = heap w r)"
  by (cases i)
     (auto simp add: call_defs split: sum.splits option.splits)


lemma exampleWorld_session:
  "sessions exampleWorld ''call-1'' = Some 0 \<and>
   heap exampleWorld 0 = Some \<lparr> call = ''call-1'', agentUserId = ''agent-x'',
     instructions = ''Be concise.'', conversationHistory = [], isProcessing = False,
     audioResponses = [] \<rparr>"
  by (simp add: exampleWorld_def startSession_def init_def)

lemma resume_progress:
  "resume i penv b t w = (w', Some p) \<Longrightarrow> awaitsLeft p < awaitsLeft (t_pc t)"
  by (auto simp: resume_def after_defs split: pc.splits impl.splits sum.splits option.splits)

lemma begin_accepted:
  assumes "sessions w cid = Some r" and "heap w r = Some s"
    and "\<not> isProcessing s" and "speakerId \<noteq> agentUserId s"
  shows "processTranscription_begin cid txt speakerId w =
           w\<lparr> heap := (heap w)(r \<mapsto> s\<lparr> isProcessing := True, conversationHistory :=
                           conversationHistory s @ [\<lparr> role = ''user'', content = txt \<rparr>] \<rparr>),
              tasks := tasks w @ [\<lparr> t_session = r, t_callId = cid, t_text = txt,
                                    t_pc = AwaitGenerate \<rparr>] \<rparr>"
  using assms by (simp add: processTranscription_begin_def block_defs)

lemma run_snoc: "run i penv w (evs @ [e]) = step i penv (run i penv w evs) e"
  by (simp add: run_def)

lemma resume_session:
  assumes "resume i penv b t w = (w', po)" and "heap w r = Some s"
  shows "\<exists>s'. heap w' r = Some s' \<and> agentUserId s' = agentUserId s \<and>
           userTurns (conversationHistory s') = userTurns (conversationHistory s)"
  using assms
  by (cases "r = t_session t")
     (auto simp: resume_def after_defs block_defs userTurns_def
           split: pc.splits impl.splits sum.splits option.splits)

lemma resume_none:
  assumes "resume i penv b t w = (w', po)" and "heap w r = None"
  shows "heap w' r = None"
  using assms
  by (cases "r = t_session t")
     (auto simp: resume_def after_defs block_defs
           split: pc.splits impl.splits sum.splits option.splits)

lemma settle_heap:
  "heap (settle i penv k b w) =
     (if k < length (tasks w) then heap (fst (resume i penv b (tasks w ! k) w)) else heap w)"
  by (auto simp: settle_def split: prod.splits option.splits)

lemma step_session:
  assumes "consistent w" and "heap w r = Some s"
  shows "\<exists>s'. heap (step i penv w e) r = Some s' \<and> agentUserId s' = agentUserId s \<and>
           (userTurns (conversationHistory s') = userTurns (conversationHistory s) \<or>
            (\<exists>cid txt sp. e = ProcessTranscription cid txt sp \<and> sessions w cid = Some r \<and>
               sp \<noteq> agentUserId s \<and>
               conversationHistory s' =
                 conversationHistory s @ [\<lparr> role = ''user'', content = txt \<rparr>]))"
proof (cases e)
  case (StartSession cid agent instr)
  have "r < nextRef w" using assms by (auto simp: consistent_def)
  then show ?thesis using assms StartSession by (simp add: startSession_def)
next
  case (EndSession cid)
  then show ?thesis using assms by (simp add: endSession_def)
next
  case (ProcessTranscription cid tx sp)
  then show ?thesis using assms
    by (auto simp: processTranscription_begin_def block_defs split: option.splits)
next
  case (Settle k b)
  show ?thesis
  proof (cases "k < length (tasks w)")
    case True
    obtain w' po where res: "resume i penv b (tasks w ! k) w = (w', po)"
      by (cases "resume i penv b (tasks w ! k) w")
    from resume_session[OF res assms(2)] show ?thesis
      using Settle True res by (simp add: settle_heap)
  next
    case False
    then show ?thesis using Settle assms by (simp add: settle_def)
  qed
qed

lemma step_fresh:
  assumes "heap w r = None" and "heap (step i penv w e) r = Some s'"
  shows "conversationHistory s' = []"
proof (cases e)
  case (StartSession cid agent instr)
  then show ?thesis using assms by (auto simp: startSession_def split: if_splits)
next
  case (EndSession cid)
  then show ?thesis using assms by (simp add: endSession_def)
next
  case (ProcessTranscription cid tx sp)
  then show ?thesis using assms
    by (auto simp: processTranscription_begin_def block_defs split: option.splits if_splits)
next
  case (Settle k b)
  show ?thesis
  proof (cases "k < length (tasks w)")
    case True
    obtain w' po where res: "resume i penv b (tasks w ! k) w = (w', po)"
      by (cases "resume i penv b (tasks w ! k) w")
    from resume_none[OF res assms(1)] show ?thesis
      using Settle True res assms(2) by (simp add: settle_heap)
  next
    case False
    then show ?thesis using Settle assms by (simp add: settle_def)
  qed
qed

lemma user_turn_provenance:
  "heap (run i penv init evs) r = Some s \<Longrightarrow> m \<in> set (userTurns (conversationHistory s)) \<Longrightarrow>
   \<exists>cid sp. ProcessTranscription cid (content m) sp \<in> set evs \<and> sp \<noteq> agentUserId s"
proof (induction evs arbitrary: r s m rule: rev_induct)
  case Nil
  then show ?case by (simp add: run_def init_def)
next
  case (snoc e evs)
  let ?w = "run i penv init evs"
  have cw: "consistent ?w" by (simp add: consistent_run consistent_init)
  have st: "heap (step i penv ?w e) r = Some s" using snoc.prems(1) by (simp add: run_snoc)
  show ?case
  proof (cases "heap ?w r")
    case None
    from step_fresh[OF None st] snoc.prems(2) show ?thesis by (simp add: userTurns_def)
  next
    case (Some s0)
    from step_session[OF cw Some, of i penv e] st
    have ag: "agentUserId s = agentUserId s0"
      and alt: "userTurns (conversationHistory s) = userTurns (conversationHistory s0) \<or>
            (\<exists>cid txt sp. e = ProcessTranscription cid txt sp \<and> sessions ?w cid = Some r \<and>
               sp \<noteq> agentUserId s0 \<and>
               conversationHistory s =
                 conversationHistory s0 @ [\<lparr> role = ''user'', content = txt \<rparr>])"
      by auto
    from alt show ?thesis
    proof
      assume "userTurns (conversationHistory s) = userTurns (conversationHistory s0)"
      then have "m \<in> set (userTurns (conversationHistory s0))" using snoc.prems(2) by simp
      from snoc.IH[OF Some this] show ?thesis using ag by auto
    next
      assume "\<exists>cid txt sp. e = ProcessTranscription cid txt sp \<and> sessions ?w cid = Some r \<and>
               sp \<noteq> agentUserId s0 \<and>
               conversationHistory s =
                 conversationHistory s0 @ [\<lparr> role = ''user'', content = txt \<rparr>]"
      then obtain cid tx sp where e: "e = ProcessTranscription cid tx sp"
        and sp: "sp \<noteq> agentUserId s0"
        and h: "conversationHistory s = conversationHistory s0 @ [\<lparr> role = ''user'', content = tx \<rparr>]"
        by blast
      from snoc.prems(2) h have "m \<in> set (userTurns (conversationHistory s0)) \<or> m = \<lparr> role = ''user'', content = tx \<rparr>"
        by (auto simp: userTurns_def)
      then show ?thesis
      proof
        assume "m \<in> set (userTurns (conversationHistory s0))"
        from snoc.IH[OF Some this] show ?thesis using ag by auto
      next
        assume "m = \<lparr> role = ''user'', content = tx \<rparr>"
        then show ?thesis using e sp ag by auto
      qed
    qed
  qed
qed








lemma settle_sessions: "sessions (settle i penv k b w) = sessions w"
proof (cases "k < length (tasks w)")
  case False
  then show ?thesis by (simp add: settle_def)
next
  case True
  obtain w' po where res: "resume i penv b (tasks w ! k) w = (w', po)"
    by (cases "resume i penv b (tasks w ! k) w")
  then show ?thesis using True resume_frame[OF res]
    by (cases po) (simp_all add: settle_def)
qed




lemmas world_eval = run_def startSession_def endSession_def processTranscription_begin_def
  block_defs init_def

lemmas example_eval = exampleWorld_def startSession_def init_def exampleEnv_def exampleAnswers_def
  generateGeminiResponse_def getGeminiClient_def getTTSClient_def textToSpeech_def unset_def
  ensureAudioDir_def

subsection \<open>Dropped fragments and single flight\<close>




subsection \<open>The busy flag is released\<close>

text \<open>
  Claim C2. A call that is accepted sets the busy flag of its session object before its
  first \<open>await\<close>; whatever the backends and the file system answer (success, a failing
  generation, a failing synthesis, a failing write), the awaited call ends with the flag
  false on that object and with no call left suspended. The same holds when other calls
  run in between: every resumption that ends a call leaves the flag of the session object
  it holds false, and a resumption that does not end the call leaves it with fewer promises
  to wait for, so a call whose promises settle ends after four resumptions at most.
\<close>

theorem busy_flag_released:
  "(sessions w cid = Some r \<and> heap w r = Some s \<and> \<not> isProcessing s \<and>
      speakerId \<noteq> agentUserId s \<longrightarrow>
      (\<exists>s1. heap (processTranscription_begin cid txt speakerId w) r = Some s1 \<and>
             isProcessing s1) \<and>
      (\<exists>s2. heap (processTranscription i penv b cid txt speakerId w) r = Some s2 \<and>
             \<not> isProcessing s2) \<and>
      tasks (processTranscription i penv b cid txt speakerId w) = tasks w) \<and>
   (resume i penv b t v = (v', None) \<and> heap v (t_session t) = Some s' \<longrightarrow>
      (\<exists>s2. heap v' (t_session t) = Some s2 \<and> \<not> isProcessing s2)) \<and>
   (resume i penv b t v = (v', Some p) \<longrightarrow> awaitsLeft p < awaitsLeft (t_pc t))"
proof (intro conjI impI)
  assume a: "sessions w cid = Some r \<and> heap w r = Some s \<and> \<not> isProcessing s \<and>
      speakerId \<noteq> agentUserId s"
  then show "\<exists>s1. heap (processTranscription_begin cid txt speakerId w) r = Some s1 \<and>
             isProcessing s1"
    by (simp add: begin_accepted)
  from a have "sessions w cid = Some r" "heap w r = Some s" "\<not> isProcessing s"
    "speakerId \<noteq> agentUserId s" by simp_all
  from pt_accepted_session[OF this, of i penv b "txt"]
  show "\<exists>s2. heap (processTranscription i penv b cid txt speakerId w) r = Some s2 \<and>
             \<not> isProcessing s2" by blast
  show "tasks (processTranscription i penv b cid txt speakerId w) = tasks w"
    using pt_frame by blast
next
  assume "resume i penv b t v = (v', None) \<and> heap v (t_session t) = Some s'"
  then have "resume i penv b t v = (v', None)" "heap v (t_session t) = Some s'" by simp_all
  from resume_flag[OF this]
  show "\<exists>s2. heap v' (t_session t) = Some s2 \<and> \<not> isProcessing s2" by auto
next
  assume "resume i penv b t v = (v', Some p)"
  then show "awaitsLeft p < awaitsLeft (t_pc t)" by (rule resume_progress)
qed

theorem busy_flag_released_witness:
  "(\<exists>s1. heap (processTranscription_begin ''call-1'' ''hello'' ''user-1'' exampleWorld) 0 = Some s1 \<and>
          isProcessing s1) \<and>
   (\<exists>s2. heap (processTranscription Durable exampleEnv
               (exampleAnswers\<lparr> synthesizeSpeech := Inr None \<rparr>)
               ''call-1'' ''hello'' ''user-1'' exampleWorld) 0 = Some s2 \<and>
          \<not> isProcessing s2) \<and>
   (\<exists>s2. heap (catchBlock 0 (Error ''Failed to generate audio from text'')
                (pushHistory 0 \<lparr> role = ''assistant'', content = ''It is sunny.'' \<rparr>
                   (processTranscription_begin ''call-1'' ''hello'' ''user-1'' exampleWorld))) 0
            = Some s2 \<and> \<not> isProcessing s2) \<and>
   awaitsLeft (AwaitTextToSpeech ''It is sunny.'') < awaitsLeft AwaitGenerate"
proof -
  let ?fresh = "\<lparr> call = ''call-1'', agentUserId = ''agent-x'', instructions = ''Be concise.'',
         conversationHistory = [], isProcessing = False, audioResponses = [] \<rparr>"
  let ?b = "exampleAnswers\<lparr> synthesizeSpeech := Inr None \<rparr>"
  let ?v = "processTranscription_begin ''call-1'' ''hello'' ''user-1'' exampleWorld"
  let ?t = "\<lparr> t_session = 0, t_callId = ''call-1'', t_text = ''hello'', t_pc = AwaitGenerate \<rparr>"
  let ?v1 = "pushHistory 0 \<lparr> role = ''assistant'', content = ''It is sunny.'' \<rparr> ?v"
  let ?t1 = "?t\<lparr> t_pc := AwaitTextToSpeech ''It is sunny.'' \<rparr>"
  let ?busy = "\<lparr> call = ''call-1'', agentUserId = ''agent-x'', instructions = ''Be concise.'',
         conversationHistory = [\<lparr> role = ''user'', content = ''hello'' \<rparr>,
                                \<lparr> role = ''assistant'', content = ''It is sunny.'' \<rparr>],
         isProcessing = True, audioResponses = [] \<rparr>"
  have r1: "resume Durable exampleEnv ?b ?t ?v = (?v1, Some (AwaitTextToSpeech ''It is sunny.''))"
    by (simp add: resume_def afterGenerate_def example_eval)
  have r2: "resume Durable exampleEnv ?b ?t1 ?v1 =
              (catchBlock 0 (Error ''Failed to generate audio from text'') ?v1, None)"
    by (simp add: resume_def afterTextToSpeech_disk_def example_eval)
  have h: "heap ?v1 (t_session ?t1) = Some ?busy"
    by (simp add: processTranscription_begin_def block_defs exampleWorld_def startSession_def
          init_def)
  from busy_flag_released[of exampleWorld "''call-1''" 0 ?fresh "''user-1''" "''hello''"
      Durable exampleEnv ?b ?t1 ?v1 "catchBlock 0 (Error ''Failed to generate audio from text'') ?v1"
      ?busy]
    busy_flag_released[of exampleWorld "''call-1''" 0 ?fresh "''user-1''" "''hello''"
      Durable exampleEnv ?b ?t ?v ?v1 ?fresh "AwaitTextToSpeech ''It is sunny.''"]
    exampleWorld_session r1 r2 h
  show ?thesis by simp
qed

subsection \<open>The agent's own speech\<close>

text \<open>
  Claim C3. A fragment whose speaker is the agent of the session leaves the whole world
  unchanged, so neither \<open>conversationHistory\<close> nor \<open>audioResponses\<close> is touched. Hence, in
  every execution from the empty service, each user entry of a history is the text of a
  fragment that was passed to \<open>processTranscription\<close> with a speaker other than the agent
  of that session.
\<close>

theorem agent_speech_ignored:
  "(sessions w cid = Some r \<and> heap w r = Some s \<and> speakerId = agentUserId s \<longrightarrow>
      processTranscription_begin cid txt speakerId w = w \<and>
      processTranscription i penv b cid txt speakerId w = w) \<and>
   (heap (run i penv init evs) r' = Some s' \<and> m \<in> set (userTurns (conversationHistory s')) \<longrightarrow>
      (\<exists>c sp. ProcessTranscription c (content m) sp \<in> set evs \<and> sp \<noteq> agentUserId s'))"
proof (intro conjI impI)
  assume a: "sessions w cid = Some r \<and> heap w r = Some s \<and> speakerId = agentUserId s"
  then show "processTranscription_begin cid txt speakerId w = w"
    by (simp add: processTranscription_begin_def)
  from a show "processTranscription i penv b cid txt speakerId w = w"
    by (intro pt_dropped) blast
next
  assume "heap (run i penv init evs) r' = Some s' \<and> m \<in> set (userTurns (conversationHistory s'))"
  then show "\<exists>c sp. ProcessTranscription c (content m) sp \<in> set evs \<and> sp \<noteq> agentUserId s'"
    using user_turn_provenance by blast
qed

theorem agent_speech_ignored_witness:
  "processTranscription Durable exampleEnv exampleAnswers ''call-1'' ''It is sunny.'' ''agent-x''
     exampleWorld = exampleWorld \<and>
   (\<exists>c sp. ProcessTranscription c ''hello'' sp \<in>
        set [StartSession ''call-1'' ''agent-x'' ''Be concise.'',
             ProcessTranscription ''call-1'' ''hello'' ''user-1''] \<and>
      sp \<noteq> ''agent-x'')"
proof -
  let ?evs = "[StartSession ''call-1'' ''agent-x'' ''Be concise.'',
             ProcessTranscription ''call-1'' ''hello'' ''user-1'']"
  let ?busy = "\<lparr> call = ''call-1'', agentUserId = ''agent-x'', instructions = ''Be concise.'',
       conversationHistory = [\<lparr> role = ''user'', content = ''hello'' \<rparr>],
       isProcessing = True, audioResponses = [] \<rparr>"
  have h: "heap (run Durable exampleEnv init ?evs) 0 = Some ?busy"
    by (simp add: world_eval)
  have m: "\<lparr> role = ''user'', content = ''hello'' \<rparr> \<in> set (userTurns (conversationHistory ?busy))"
    by (simp add: userTurns_def)
  let ?fresh = "\<lparr> call = ''call-1'', agentUserId = ''agent-x'', instructions = ''Be concise.'',
       conversationHistory = [], isProcessing = False, audioResponses = [] \<rparr>"
  show ?thesis
    using agent_speech_ignored[of exampleWorld "''call-1''" 0 ?fresh "''agent-x''" "''It is sunny.''"
        Durable exampleEnv exampleAnswers ?evs 0 ?busy
        "\<lparr> role = ''user'', content = ''hello'' \<rparr>"]
      exampleWorld_session h m
    by simp
qed

subsection \<open>A failing generation\<close>

text \<open>
  Claim C4. When the generation fails during an accepted turn (the backend raises, or no
  API key is configured), the awaited call still completes: the error is reported with
  \<open>console.error\<close> and swallowed, the user entry pushed before the generation stays in
  \<open>conversationHistory\<close>, no assistant entry follows it, \<open>audioResponses\<close> is unchanged, and
  the busy flag is released. The world after the call is given in full, so nothing else
  changes either.
\<close>

theorem generation_failure_contained:
  assumes "sessions w cid = Some r" and "heap w r = Some s"
    and "\<not> isProcessing s" and "speakerId \<noteq> agentUserId s"
    and "generateGeminiResponse penv (generateContent b) = Inl e"
  shows "processTranscription i penv b cid txt speakerId w =
           w\<lparr> heap := (heap w)(r \<mapsto> s\<lparr> conversationHistory :=
                           conversationHistory s @ [\<lparr> role = ''user'', content = txt \<rparr>],
                         isProcessing := False \<rparr>),
              consoleErrors := consoleErrors w @
                [(''[Gemini Voice] Error processing transcription:'', e)] \<rparr>"
  using assms by (simp add: call_defs)

theorem generation_failure_contained_witness:
  "processTranscription Durable exampleEnv
     (exampleAnswers\<lparr> generateContent := Inl (Error ''503'') \<rparr>)
     ''call-1'' ''What is the weather?'' ''user-1'' exampleWorld =
   exampleWorld\<lparr> heap := (heap exampleWorld)(0 \<mapsto>
       \<lparr> call = ''call-1'', agentUserId = ''agent-x'', instructions = ''Be concise.'',
         conversationHistory = [\<lparr> role = ''user'', content = ''What is the weather?'' \<rparr>],
         isProcessing = False, audioResponses = [] \<rparr>),
     consoleErrors := [(''[Gemini Voice] Error processing transcription:'', Error ''503'')] \<rparr>"
proof -
  have g: "generateGeminiResponse exampleEnv
      (generateContent (exampleAnswers\<lparr> generateContent := Inl (Error ''503'') \<rparr>)) = Inl (Error ''503'')"
    by (simp add: generateGeminiResponse_def getGeminiClient_def exampleEnv_def unset_def)
  have c: "consoleErrors exampleWorld = []"
    by (simp add: exampleWorld_def startSession_def init_def)
  show ?thesis
    using generation_failure_contained[of exampleWorld "''call-1''" 0 _ "''user-1''" exampleEnv _ _ Durable "''What is the weather?''", OF _ _ _ _ g]
      exampleWorld_session c
    by simp
qed

lemma exampleWorld_errors: "consoleErrors exampleWorld = [] \<and> written exampleWorld = []"
  by (simp add: exampleWorld_def startSession_def init_def)

subsection \<open>A failing synthesis\<close>

text \<open>
  Claim C5, as amended. When the text-to-speech client is configured and its reply has no
  audio payload, \<open>textToSpeech\<close> throws; nothing catches the error inside the pipeline, it
  reaches the outer \<open>catch\<close> of \<open>processTranscription\<close>. The awaited call still completes:
  the error is reported with \<open>console.error\<close> and swallowed, the user entry and the
  assistant entry stay in \<open>conversationHistory\<close>, the busy flag is released, and no response
  is recorded for the turn. Both variants behave so.
\<close>

theorem synthesis_failure_ends_turn:
  assumes "sessions w cid = Some r" and "heap w r = Some s"
    and "\<not> isProcessing s" and "speakerId \<noteq> agentUserId s"
    and "generateGeminiResponse penv (generateContent b) = Inr g"
    and "getTTSClient penv = Some c" and "synthesizeSpeech b = Inr None"
  shows "processTranscription i penv b cid txt speakerId w =
           w\<lparr> heap := (heap w)(r \<mapsto> s\<lparr> conversationHistory :=
                           conversationHistory s @
                             [\<lparr> role = ''user'', content = txt \<rparr>,
                              \<lparr> role = ''assistant'', content = g \<rparr>],
                         isProcessing := False \<rparr>),
              consoleErrors := consoleErrors w @
                [(''[Gemini Voice] Error processing transcription:'',
                  Error ''Failed to generate audio from text'')] \<rparr>"
  using assms by (cases i) (simp_all add: call_defs textToSpeech_def)

text \<open>
  The claim as stated, that a text-only response is still recorded, fails: after such a
  turn on a fresh session the list of responses is empty.
\<close>

theorem no_response_after_synthesis_failure:
  "getTTSClient exampleEnv = Some TextToSpeechClient \<and>
   getAudioResponses ''call-1''
     (processTranscription Durable exampleEnv (exampleAnswers\<lparr> synthesizeSpeech := Inr None \<rparr>)
        ''call-1'' ''What is the weather?'' ''user-1'' exampleWorld) = []"
  by (simp add: call_defs exampleWorld_def startSession_def init_def exampleEnv_def
        exampleAnswers_def getAudioResponses_def sessionOf_def textToSpeech_def getTTSClient_def
        generateGeminiResponse_def getGeminiClient_def unset_def)

theorem synthesis_failure_ends_turn_witness:
  "processTranscription Durable exampleEnv (exampleAnswers\<lparr> synthesizeSpeech := Inr None \<rparr>)
     ''call-1'' ''What is the weather?'' ''user-1'' exampleWorld =
   exampleWorld\<lparr> heap := (heap exampleWorld)(0 \<mapsto>
       \<lparr> call = ''call-1'', agentUserId = ''agent-x'', instructions = ''Be concise.'',
         conversationHistory = [\<lparr> role = ''user'', content = ''What is the weather?'' \<rparr>,
                                \<lparr> role = ''assistant'', content = ''It is sunny.'' \<rparr>],
         isProcessing = False, audioResponses = [] \<rparr>),
     consoleErrors := [(''[Gemini Voice] Error processing transcription:'',
                        Error ''Failed to generate audio from text'')] \<rparr>"
proof -
  let ?b = "exampleAnswers\<lparr> synthesizeSpeech := Inr None \<rparr>"
  let ?fresh = "\<lparr> call = ''call-1'', agentUserId = ''agent-x'', instructions = ''Be concise.'',
         conversationHistory = [], isProcessing = False, audioResponses = [] \<rparr>"
  have g: "generateGeminiResponse exampleEnv (generateContent ?b) = Inr ''It is sunny.''"
    by (simp add: generateGeminiResponse_def getGeminiClient_def exampleEnv_def unset_def
          exampleAnswers_def)
  have c: "getTTSClient exampleEnv = Some TextToSpeechClient"
    by (simp add: getTTSClient_def exampleEnv_def unset_def)
  have n: "synthesizeSpeech ?b = Inr None" by simp
  show ?thesis
    using synthesis_failure_ends_turn[of exampleWorld "''call-1''" 0 ?fresh "''user-1''" exampleEnv ?b
        "''It is sunny.''" TextToSpeechClient Durable "''What is the weather?''", OF _ _ _ _ g c n]
      exampleWorld_session exampleWorld_errors
    by simp
qed

subsection \<open>No text-to-speech client\<close>

text \<open>
  Claim C6. Without a text-to-speech client \<open>textToSpeech\<close> resolves with \<open>null\<close>. The
  durable variant then records the generated text with the empty \<open>audioUrl\<close>, as the claim
  says.
\<close>

lemma text_only_turn_durable:
  assumes "sessions w cid = Some r" and "heap w r = Some s"
    and "\<not> isProcessing s" and "speakerId \<noteq> agentUserId s"
    and "generateGeminiResponse penv (generateContent b) = Inr g"
    and "getTTSClient penv = None"
  shows "textToSpeech penv (synthesizeSpeech b) = Inr None \<and>
         processTranscription Durable penv b cid txt speakerId w =
           w\<lparr> heap := (heap w)(r \<mapsto> s\<lparr> conversationHistory :=
                           conversationHistory s @
                             [\<lparr> role = ''user'', content = txt \<rparr>,
                              \<lparr> role = ''assistant'', content = g \<rparr>],
                         audioResponses := audioResponses s @
                             [\<lparr> text = g, audioUrl = '''', timestamp = newDate b \<rparr>],
                         isProcessing := False \<rparr>) \<rparr>"
  using assms by (simp add: call_defs textToSpeech_def)

text \<open>
  The ephemeral variant records the generated text too, but under a locator made from the
  call id and the clock, which is never empty, although no audio exists and nothing is
  written.
\<close>

lemma text_only_turn_ephemeral:
  assumes "sessions w cid = Some r" and "heap w r = Some s"
    and "\<not> isProcessing s" and "speakerId \<noteq> agentUserId s"
    and "generateGeminiResponse penv (generateContent b) = Inr g"
    and "getTTSClient penv = None"
  shows "processTranscription Ephemeral penv b cid txt speakerId w =
           w\<lparr> heap := (heap w)(r \<mapsto> s\<lparr> conversationHistory :=
                           conversationHistory s @
                             [\<lparr> role = ''user'', content = txt \<rparr>,
                              \<lparr> role = ''assistant'', content = g \<rparr>],
                         audioResponses := audioResponses s @
                             [\<lparr> text = g, audioUrl = audioUrlOf (audioFileName cid (dateNow b)),
                                timestamp = newDate b \<rparr>],
                         isProcessing := False \<rparr>) \<rparr> \<and>
         audioUrlOf (audioFileName cid (dateNow b)) \<noteq> ''''"
  using assms by (simp add: call_defs textToSpeech_def audioUrlOf_def)

text \<open>
  Claim C6 at a concrete input of the ephemeral variant: no client is configured, the turn
  is accepted, and the response recorded carries a locator.
\<close>

theorem text_only_turn_ephemeral_records_locator:
  "getTTSClient textOnlyEnv = None \<and>
   getAudioResponses ''call-1''
     (processTranscription Ephemeral textOnlyEnv exampleAnswers
        ''call-1'' ''What is the weather?'' ''user-1'' exampleWorld) =
     [\<lparr> text = ''It is sunny.'', audioUrl = ''/audio-responses/call-1-5.wav'', timestamp = 6 \<rparr>] \<and>
   written (processTranscription Ephemeral textOnlyEnv exampleAnswers
        ''call-1'' ''What is the weather?'' ''user-1'' exampleWorld) = []"
  by (simp add: call_defs exampleWorld_def startSession_def init_def textOnlyEnv_def
        exampleAnswers_def getAudioResponses_def sessionOf_def textToSpeech_def getTTSClient_def
        generateGeminiResponse_def getGeminiClient_def unset_def audioUrlOf_def audioFileName_def
        show_nat.simps)

subsection \<open>The history after a sequence of turns\<close>

lemma processTranscription_as_run:
  "processTranscription i penv b cid tx sp w =
     run i penv w [ProcessTranscription cid tx sp, Settle (length (tasks w)) b,
       Settle (length (tasks w)) b, Settle (length (tasks w)) b, Settle (length (tasks w)) b]"
  by (simp add: processTranscription_def run_def Let_def)

lemma consistent_perform: "consistent w \<Longrightarrow> consistent (perform i penv w c)"
  by (cases c)
     (simp_all add: consistent_startSession consistent_endSession processTranscription_as_run
        consistent_run)

lemma resume_call:
  assumes "resume i penv b t w = (w', po)" and "heap w r = Some s"
  shows "\<exists>s'. heap w' r = Some s' \<and> call s' = call s"
  using assms
  by (cases "r = t_session t")
     (auto simp: resume_def after_defs block_defs
           split: pc.splits impl.splits sum.splits option.splits)

lemma consistent_ref:
  assumes "consistent w" and "sessions w c = Some r"
  shows "r < nextRef w" and "\<exists>s. heap w r = Some s"
proof -
  show lt: "r < nextRef w" using assms by (simp add: consistent_def)
  have "(heap w r \<noteq> None) = (r < nextRef w)" using assms(1) by (simp add: consistent_def)
  with lt have "heap w r \<noteq> None" by simp
  then show "\<exists>s. heap w r = Some s" by blast
qed

lemma registered_step:
  assumes "consistent w" and "registered w"
  shows "registered (step i penv w e)"
proof (cases e)
  case (StartSession cid agent instr)
  have lt: "\<And>c r. sessions w c = Some r \<Longrightarrow> r < nextRef w"
    using assms(1) by (simp add: consistent_def)
  show ?thesis
    unfolding registered_def StartSession
  proof (intro allI impI)
    fix c r s
    assume a: "sessions (step i penv w (StartSession cid agent instr)) c = Some r"
      and b: "heap (step i penv w (StartSession cid agent instr)) r = Some s"
    show "call s = c"
    proof (cases "c = cid")
      case True
      then show ?thesis using a b by (auto simp: startSession_def)
    next
      case False
      then have sc: "sessions w c = Some r" using a by (simp add: startSession_def)
      then have "r \<noteq> nextRef w" using lt[OF sc] by simp
      then have "heap w r = Some s" using b by (simp add: startSession_def)
      then show ?thesis using assms(2) sc unfolding registered_def by blast
    qed
  qed
next
  case (EndSession cid)
  show ?thesis
    unfolding registered_def EndSession
  proof (intro allI impI)
    fix c r s
    assume a: "sessions (step i penv w (EndSession cid)) c = Some r"
      and b: "heap (step i penv w (EndSession cid)) r = Some s"
    from a have "sessions w c = Some r" by (simp add: endSession_def split: if_splits)
    moreover from b have "heap w r = Some s" by (simp add: endSession_def)
    ultimately show "call s = c" using assms(2) unfolding registered_def by blast
  qed
next
  case (ProcessTranscription cid tx sp)
  let ?w' = "processTranscription_begin cid tx sp w"
  have se: "sessions ?w' = sessions w"
    by (simp add: processTranscription_begin_def block_defs split: option.splits)
  have hp: "\<And>r s'. heap ?w' r = Some s' \<Longrightarrow> \<exists>s. heap w r = Some s \<and> call s = call s'"
    by (auto simp: processTranscription_begin_def block_defs split: option.splits if_splits)
  show ?thesis
    unfolding registered_def ProcessTranscription step.simps
  proof (intro allI impI)
    fix c r s'
    assume a: "sessions ?w' c = Some r" and b: "heap ?w' r = Some s'"
    from hp[OF b] obtain s where s: "heap w r = Some s" "call s = call s'" by blast
    from a have "sessions w c = Some r" by (simp add: se)
    with s(1) have "call s = c" using assms(2) unfolding registered_def by blast
    then show "call s' = c" using s(2) by simp
  qed
next
  case (Settle k b)
  show ?thesis
    unfolding registered_def Settle step.simps
  proof (intro allI impI)
    fix c r s'
    assume a: "sessions (settle i penv k b w) c = Some r"
      and h: "heap (settle i penv k b w) r = Some s'"
    from a have sc: "sessions w c = Some r" by (simp add: settle_sessions)
    obtain s where s: "heap w r = Some s" using consistent_ref(2)[OF assms(1) sc] by blast
    have cs: "call s = c" using assms(2) sc s unfolding registered_def by blast
    show "call s' = c"
    proof (cases "k < length (tasks w)")
      case True
      obtain w' po where res: "resume i penv b (tasks w ! k) w = (w', po)"
        by (cases "resume i penv b (tasks w ! k) w")
      from resume_call[OF res s] h show ?thesis
        using True res cs by (auto simp: settle_heap)
    next
      case False
      then show ?thesis using h s cs by (simp add: settle_def)
    qed
  qed
qed

lemma registered_init: "registered init"
  by (simp add: registered_def init_def)

lemma registered_run:
  "consistent w \<Longrightarrow> registered w \<Longrightarrow> registered (run i penv w evs)"
proof (induction evs arbitrary: w)
  case Nil
  then show ?case by (simp add: run_def)
next
  case (Cons e evs)
  have "consistent (step i penv w e)" using Cons.prems(1) by (rule consistent_step)
  moreover have "registered (step i penv w e)" using Cons.prems by (rule registered_step)
  ultimately have "registered (run i penv (step i penv w e) evs)" by (rule Cons.IH)
  then show ?case by (simp add: run_def)
qed

lemma registered_perform:
  assumes "consistent w" and "registered w"
  shows "registered (perform i penv w c)"
proof (cases c)
  case (Start cid agent instr)
  have "registered (step i penv w (StartSession cid agent instr))"
    using assms by (rule registered_step)
  then show ?thesis using Start by simp
next
  case (End cid)
  have "registered (step i penv w (EndSession cid))" using assms by (rule registered_step)
  then show ?thesis using End by simp
next
  case (Process cid tx sp b)
  then show ?thesis using assms by (simp add: processTranscription_as_run registered_run)
qed

lemma perform_history:
  assumes c: "consistent w" and g: "registered w"
    and se: "sessions w cid = Some r" and hp: "heap w r = Some s"
    and np: "\<not> isProcessing s" and nr: "\<not> restarts cid c"
  shows "\<exists>s'. sessions (perform i penv w c) cid = Some r \<and> heap (perform i penv w c) r = Some s' \<and>
           \<not> isProcessing s' \<and> agentUserId s' = agentUserId s \<and>
           conversationHistory s' = conversationHistory s @ turnOf penv cid (agentUserId s) c"
proof (cases c)
  case (Start c' agent instr)
  then have ne: "c' \<noteq> cid" using nr by simp
  have "r < nextRef w" using consistent_ref(1)[OF c se] .
  then show ?thesis using Start ne se hp np by (simp add: startSession_def)
next
  case (End c')
  then have ne: "c' \<noteq> cid" using nr by simp
  then show ?thesis using End se hp np by (simp add: endSession_def)
next
  case (Process c' tx sp b)
  note fr = pt_frame[of i penv b c' tx sp w]
  show ?thesis
  proof (cases "c' = cid")
    case True
    show ?thesis
    proof (cases "sp = agentUserId s")
      case True
      have "processTranscription i penv b cid tx sp w = w"
        by (rule pt_dropped) (use se hp True in blast)
      then show ?thesis using Process \<open>c' = cid\<close> True se hp np by simp
    next
      case False
      from pt_accepted_session[OF se hp np False, of i penv b tx]
      obtain s' where "heap (processTranscription i penv b cid tx sp w) r = Some s'"
        "conversationHistory s' = conversationHistory s @ turnHistory penv b tx"
        "\<not> isProcessing s'" "agentUserId s' = agentUserId s" by blast
      then show ?thesis using Process \<open>c' = cid\<close> False se fr by simp
    qed
  next
    case False
    have "sessions w c' \<noteq> Some r"
    proof
      assume "sessions w c' = Some r"
      then have "call s = c'" using g hp unfolding registered_def by blast
      moreover have "call s = cid" using g se hp unfolding registered_def by blast
      ultimately show False using False by simp
    qed
    then have "heap (processTranscription i penv b c' tx sp w) r = heap w r" using fr by blast
    then show ?thesis using Process False se hp np fr by simp
  qed
qed

lemma performAll_history:
  assumes "consistent w" and "registered w"
    and "sessions w cid = Some r" and "heap w r = Some s"
    and "\<not> isProcessing s" and "\<forall>c \<in> set cs. \<not> restarts cid c"
  shows "\<exists>s'. sessions (performAll i penv w cs) cid = Some r \<and>
           heap (performAll i penv w cs) r = Some s' \<and>
           \<not> isProcessing s' \<and> agentUserId s' = agentUserId s \<and>
           conversationHistory s' =
             conversationHistory s @ concat (map (turnOf penv cid (agentUserId s)) cs)"
  using assms
proof (induction cs arbitrary: w s)
  case Nil
  then show ?case by (simp add: performAll_def)
next
  case (Cons c cs)
  have nr: "\<not> restarts cid c" using Cons.prems(6) by simp
  from perform_history[OF Cons.prems(1-5) nr, of i penv]
  obtain s1 where s1: "sessions (perform i penv w c) cid = Some r"
    "heap (perform i penv w c) r = Some s1" "\<not> isProcessing s1"
    "agentUserId s1 = agentUserId s"
    "conversationHistory s1 = conversationHistory s @ turnOf penv cid (agentUserId s) c"
    by blast
  have c1: "consistent (perform i penv w c)" using Cons.prems(1) by (rule consistent_perform)
  have g1: "registered (perform i penv w c)" using Cons.prems(1,2) by (rule registered_perform)
  have rest: "\<forall>c \<in> set cs. \<not> restarts cid c" using Cons.prems(6) by simp
  from Cons.IH[OF c1 g1 s1(1) s1(2) s1(3) rest]
  obtain s' where s': "sessions (performAll i penv (perform i penv w c) cs) cid = Some r"
    "heap (performAll i penv (perform i penv w c) cs) r = Some s'" "\<not> isProcessing s'"
    "agentUserId s' = agentUserId s1"
    "conversationHistory s' =
       conversationHistory s1 @ concat (map (turnOf penv cid (agentUserId s1)) cs)"
    by blast
  have pa: "performAll i penv w (c # cs) = performAll i penv (perform i penv w c) cs"
    by (simp add: performAll_def)
  show ?case unfolding pa using s' s1 by simp
qed

lemma length_turns:
  "length (concat (map (turnOf penv cid agent) cs)) =
     2 * length (filter (succeeds penv cid agent) cs) + length (filter (fails penv cid agent) cs)"
proof (induction cs)
  case Nil
  show ?case by simp
next
  case (Cons c cs)
  have "length (turnOf penv cid agent c) =
          (if succeeds penv cid agent c then 2 else 0) + (if fails penv cid agent c then 1 else 0)"
    by (cases c) (auto simp: turnHistory_def generated_def split: sum.splits)
  then show ?case using Cons by simp
qed

lemma roles_turns:
  "filter (fails penv cid agent) cs = [] \<Longrightarrow>
   map role (concat (map (turnOf penv cid agent) cs)) =
     concat (replicate (length (filter (succeeds penv cid agent) cs)) [''user'', ''assistant''])"
proof (induction cs)
  case Nil
  show ?case by simp
next
  case (Cons c cs)
  have nf: "\<not> fails penv cid agent c" and rest: "filter (fails penv cid agent) cs = []"
    using Cons.prems by (simp_all split: if_splits)
  have "map role (turnOf penv cid agent c) =
          (if succeeds penv cid agent c then [''user'', ''assistant''] else [])"
    using nf by (cases c) (auto simp: turnHistory_def generated_def split: sum.splits)
  then show ?case using Cons.IH[OF rest] by simp
qed

text \<open>
  Calls made one after the other, each awaited, none of which starts or ends the session
  \<open>cid\<close>: the history of the session holds the entries of \<open>turnOf\<close>, call by call.
\<close>

lemma history_after_awaited_turns:
  assumes "\<forall>c \<in> set cs. \<not> restarts cid c"
  shows "\<exists>s. sessionOf (performAll i penv (startSession cid agent instr (run i penv init evs)) cs) cid
              = Some s \<and>
           conversationHistory s = concat (map (turnOf penv cid agent) cs) \<and>
           length (conversationHistory s) =
             2 * length (filter (succeeds penv cid agent) cs) +
             length (filter (fails penv cid agent) cs) \<and>
           (filter (fails penv cid agent) cs = [] \<longrightarrow>
              map role (conversationHistory s) =
                concat (replicate (length (filter (succeeds penv cid agent) cs))
                          [''user'', ''assistant'']))"
proof -
  let ?base = "run i penv init evs"
  let ?w = "startSession cid agent instr ?base"
  let ?fresh = "\<lparr> call = cid, agentUserId = agent, instructions = instr,
               conversationHistory = [], isProcessing = False, audioResponses = [] \<rparr>"
  have c0: "consistent ?base" by (intro consistent_run consistent_init)
  have g0: "registered ?base" by (intro registered_run consistent_init registered_init)
  have c: "consistent ?w" using c0 by (rule consistent_startSession)
  have "registered (step i penv ?base (StartSession cid agent instr))"
    using c0 g0 by (rule registered_step)
  then have g: "registered ?w" by simp
  have se: "sessions ?w cid = Some (nextRef ?base)" by (simp add: startSession_def)
  have hp: "heap ?w (nextRef ?base) = Some ?fresh" by (simp add: startSession_def)
  have np: "\<not> isProcessing ?fresh" by simp
  from performAll_history[OF c g se hp np assms, of i penv]
  obtain s where s: "sessions (performAll i penv ?w cs) cid = Some (nextRef ?base)"
    "heap (performAll i penv ?w cs) (nextRef ?base) = Some s"
    "conversationHistory s = concat (map (turnOf penv cid agent) cs)"
    by auto
  have "sessionOf (performAll i penv ?w cs) cid = Some s"
    using s(1,2) by (simp add: sessionOf_def)
  moreover have "length (conversationHistory s) =
             2 * length (filter (succeeds penv cid agent) cs) +
             length (filter (fails penv cid agent) cs)"
    unfolding s(3) by (rule length_turns)
  moreover have "filter (fails penv cid agent) cs = [] \<longrightarrow>
              map role (conversationHistory s) =
                concat (replicate (length (filter (succeeds penv cid agent) cs))
                          [''user'', ''assistant''])"
    unfolding s(3) using roles_turns by blast
  ultimately show ?thesis using s(3) by blast
qed

text \<open>Histories made of turns, and what the events of an interleaved execution add to them.\<close>

lemma turns_user_snoc: "turns h \<Longrightarrow> role m = ''user'' \<Longrightarrow> turns (h @ [m])"
  by (induction h rule: turns.induct) auto

lemma turns_assistant_snoc:
  "turns h \<Longrightarrow> h \<noteq> [] \<Longrightarrow> role (last h) = ''user'' \<Longrightarrow> role m = ''assistant'' \<Longrightarrow> turns (h @ [m])"
  by (induction h rule: turns.induct) (auto split: if_splits)

lemma turns_count_le:
  "turns h \<Longrightarrow> length (filter (\<lambda>m. role m = ''assistant'') h) \<le> length (filter (\<lambda>m. role m = ''user'') h)"
  by (induction h rule: turns.induct) (auto split: if_splits)

lemma turns_length:
  "turns h \<Longrightarrow> length h = length (filter (\<lambda>m. role m = ''user'') h) +
                           length (filter (\<lambda>m. role m = ''assistant'') h)"
  by (induction h rule: turns.induct) (auto split: if_splits)

lemma turns_alternate:
  "turns h \<Longrightarrow>
   length (filter (\<lambda>m. role m = ''user'') h) = length (filter (\<lambda>m. role m = ''assistant'') h) \<Longrightarrow>
   map role h = concat (replicate (length (filter (\<lambda>m. role m = ''assistant'') h))
                          [''user'', ''assistant''])"
proof (induction h rule: turns.induct)
  case 1
  show ?case by simp
next
  case (2 m)
  then show ?case by simp
next
  case (3 m n ms)
  show ?case
  proof (cases "role n = ''assistant''")
    case True
    then show ?thesis using 3 by simp
  next
    case False
    then have t: "turns (n # ms)" and mu: "role m = ''user''" using "3.prems"(1) by simp_all
    from turns_count_le[OF t] "3.prems"(2) mu show ?thesis by simp
  qed
qed

lemma resume_history:
  assumes "resume i penv b t w = (w', po)" and "heap w r = Some s"
  shows "\<exists>s'. heap w' r = Some s' \<and>
           conversationHistory s' = conversationHistory s @
             (if t_session t = r \<and> t_pc t = AwaitGenerate
              then (case generateGeminiResponse penv (generateContent b) of
                      Inl e \<Rightarrow> [] | Inr g \<Rightarrow> [\<lparr> role = ''assistant'', content = g \<rparr>])
              else [])"
  using assms
  by (cases "r = t_session t")
     (auto simp: resume_def after_defs block_defs
           split: pc.splits impl.splits sum.splits option.splits)

lemma step_history:
  assumes "consistent w" and "heap w r = Some s"
  shows "\<exists>s'. heap (step i penv w e) r = Some s' \<and>
           conversationHistory s' = conversationHistory s @ entry penv w e r"
proof (cases e)
  case (StartSession cid agent instr)
  have "r < nextRef w" using assms by (auto simp: consistent_def)
  then show ?thesis using assms StartSession by (simp add: startSession_def)
next
  case (EndSession cid)
  then show ?thesis using assms by (simp add: endSession_def)
next
  case (ProcessTranscription cid tx sp)
  then show ?thesis using assms(2)
    by (auto simp: processTranscription_begin_def block_defs split: option.splits)
next
  case (Settle k b)
  show ?thesis
  proof (cases "k < length (tasks w)")
    case True
    obtain w' po where res: "resume i penv b (tasks w ! k) w = (w', po)"
      by (cases "resume i penv b (tasks w ! k) w")
    from resume_history[OF res assms(2)] show ?thesis
      using Settle True res
      by (auto simp: settle_heap generated_def split: sum.splits)
  next
    case False
    then show ?thesis using Settle assms by (simp add: settle_def)
  qed
qed

lemma resume_pc:
  "resume i penv b t w = (w', Some p) \<Longrightarrow> p \<noteq> AwaitGenerate"
  by (auto simp: resume_def after_defs split: pc.splits impl.splits sum.splits option.splits)

lemma resume_generate:
  assumes "t_pc t = AwaitGenerate"
  shows "snd (resume i penv b t w) = None \<longleftrightarrow> \<not> generated penv b"
  using assms by (auto simp: resume_def afterGenerate_def generated_def split: sum.splits)

lemma filter_update_length:
  "k < length xs \<Longrightarrow>
   length (filter P (xs[k := y])) + (if P (xs ! k) then 1 else 0) =
     length (filter P xs) + (if P y then 1 else 0)"
proof (induction xs arbitrary: k)
  case Nil
  then show ?case by simp
next
  case (Cons x xs)
  show ?case
  proof (cases k)
    case 0
    then show ?thesis by simp
  next
    case (Suc j)
    then have "j < length xs" using Cons.prems by simp
    from Cons.IH[OF this] show ?thesis using Suc by simp
  qed
qed

lemma filter_remove_length:
  "k < length xs \<Longrightarrow>
   length (filter P (take k xs @ drop (Suc k) xs)) + (if P (xs ! k) then 1 else 0) =
     length (filter P xs)"
proof -
  assume k: "k < length xs"
  have "xs = take k xs @ xs ! k # drop (Suc k) xs" using k by (simp add: id_take_nth_drop)
  then have "length (filter P xs) =
      length (filter P (take k xs @ xs ! k # drop (Suc k) xs))" by simp
  then show ?thesis by simp
qed

lemma settle_tasks_eq:
  assumes "k < length (tasks w)"
  shows "tasks (settle i penv k b w) =
     (case snd (resume i penv b (tasks w ! k) w) of
        None \<Rightarrow> take k (tasks w) @ drop (Suc k) (tasks w)
      | Some p \<Rightarrow> (tasks w)[k := (tasks w ! k)\<lparr> t_pc := p \<rparr>])"
proof -
  obtain w' po where res: "resume i penv b (tasks w ! k) w = (w', po)"
    by (cases "resume i penv b (tasks w ! k) w")
  have "tasks w' = tasks w" using resume_frame[OF res] by simp
  then show ?thesis using assms res by (cases po) (simp_all add: settle_def)
qed

lemma step_pending:
  "pendingOn (step i penv w e) r + (if generates penv w e r then 1 else 0) +
     (if misfires penv w e r then 1 else 0) =
   pendingOn w r + (if accepts w e r then 1 else 0)"
proof (cases e)
  case (StartSession cid agent instr)
  then show ?thesis by (simp add: pendingOn_def startSession_def)
next
  case (EndSession cid)
  then show ?thesis by (simp add: pendingOn_def endSession_def)
next
  case (ProcessTranscription cid tx sp)
  then show ?thesis
    by (auto simp: pendingOn_def processTranscription_begin_def block_defs split: option.splits)
next
  case (Settle k b)
  show ?thesis
  proof (cases "k < length (tasks w)")
    case False
    then show ?thesis using Settle by (simp add: settle_def)
  next
    case True
    let ?P = "\<lambda>t. t_session t = r \<and> t_pc t = AwaitGenerate"
    let ?t = "tasks w ! k"
    obtain w' po where res: "resume i penv b ?t w = (w', po)"
      by (cases "resume i penv b ?t w")
    show ?thesis
    proof (cases po)
      case None
      have tk: "tasks (settle i penv k b w) = take k (tasks w) @ drop (Suc k) (tasks w)"
        using settle_tasks_eq[OF True, of i penv b] res None by simp
      have g: "?P ?t \<Longrightarrow> \<not> generated penv b"
        using resume_generate[of ?t i penv b w] res None by simp
      from filter_remove_length[OF True, of ?P] show ?thesis
        unfolding Settle step.simps pendingOn_def tk using True g by auto
    next
      case (Some p)
      have tk: "tasks (settle i penv k b w) = (tasks w)[k := ?t\<lparr> t_pc := p \<rparr>]"
        using settle_tasks_eq[OF True, of i penv b] res Some by simp
      have np: "\<not> ?P (?t\<lparr> t_pc := p \<rparr>)" using resume_pc[of i penv b ?t w w' p] res Some by simp
      have g: "?P ?t \<Longrightarrow> generated penv b"
        using resume_generate[of ?t i penv b w] res Some by auto
      from filter_update_length[OF True, of ?P "?t\<lparr> t_pc := p \<rparr>"] show ?thesis
        unfolding Settle step.simps pendingOn_def tk using True g np by auto
    qed
  qed
qed

lemma filter_conj_le:
  "length (filter (\<lambda>x. P x \<and> Q x) xs) \<le> length (filter P xs)"
  by (induction xs) (auto simp: le_SucI)

lemma pendingOn_le_1: "consistent w \<Longrightarrow> pendingOn w r \<le> 1"
proof -
  assume c: "consistent w"
  have "pendingOn w r \<le> inFlightOn w r"
    unfolding pendingOn_def inFlightOn_def by (rule filter_conj_le)
  also have "\<dots> \<le> 1" using c by (rule inFlightOn_le_1)
  finally show ?thesis .
qed

lemma generated_text:
  "generated penv b \<Longrightarrow> \<exists>g. generateGeminiResponse penv (generateContent b) = Inr g"
  by (simp add: generated_def split: sum.splits)

lemma entry_process:
  "entry penv w (ProcessTranscription cid tx sp) r =
     (if accepts w (ProcessTranscription cid tx sp) r
      then [\<lparr> role = ''user'', content = tx \<rparr>] else [])"
  by (simp del: accepts.simps)

lemma entry_settle:
  "entry penv w (Settle k b) r = [] \<and> \<not> generates penv w (Settle k b) r \<or>
   generates penv w (Settle k b) r \<and>
     (\<exists>g. entry penv w (Settle k b) r = [\<lparr> role = ''assistant'', content = g \<rparr>])"
proof (cases "generates penv w (Settle k b) r")
  case True
  then have "generated penv b" by simp
  from generated_text[OF this] obtain g where
    "generateGeminiResponse penv (generateContent b) = Inr g" by blast
  then have "entry penv w (Settle k b) r = [\<lparr> role = ''assistant'', content = g \<rparr>]"
    using True by (simp del: generates.simps)
  then show ?thesis using True by blast
next
  case False
  then show ?thesis by (simp del: generates.simps)
qed

lemma entry_cases:
  "entry penv w e r = [] \<and> \<not> accepts w e r \<or>
   (accepts w e r \<and> \<not> generates penv w e r \<and> \<not> misfires penv w e r \<and>
      (\<exists>tx. entry penv w e r = [\<lparr> role = ''user'', content = tx \<rparr>])) \<or>
   (generates penv w e r \<and> \<not> accepts w e r \<and> \<not> misfires penv w e r \<and>
      (\<exists>g. entry penv w e r = [\<lparr> role = ''assistant'', content = g \<rparr>]))"
proof (cases e)
  case (StartSession cid agent instr)
  then show ?thesis by simp
next
  case (EndSession cid)
  then show ?thesis by simp
next
  case (ProcessTranscription cid tx sp)
  show ?thesis
  proof (cases "accepts w (ProcessTranscription cid tx sp) r")
    case True
    then show ?thesis unfolding ProcessTranscription entry_process by simp
  next
    case False
    then show ?thesis unfolding ProcessTranscription entry_process by simp
  qed
next
  case (Settle k b)
  from entry_settle[of penv w k b r] show ?thesis
  proof
    assume "entry penv w (Settle k b) r = [] \<and> \<not> generates penv w (Settle k b) r"
    then show ?thesis unfolding Settle by simp
  next
    assume a: "generates penv w (Settle k b) r \<and>
      (\<exists>g. entry penv w (Settle k b) r = [\<lparr> role = ''assistant'', content = g \<rparr>])"
    then have "\<not> misfires penv w (Settle k b) r" by simp
    moreover have "\<not> accepts w (Settle k b) r" by simp
    ultimately show ?thesis unfolding Settle using a by blast
  qed
qed

lemma generates_pending: "generates penv w e r \<Longrightarrow> 0 < pendingOn w r"
proof (cases e)
  case (Settle k b)
  assume "generates penv w e r"
  then have k: "k < length (tasks w)" and p: "t_session (tasks w ! k) = r \<and> t_pc (tasks w ! k) = AwaitGenerate"
    using Settle by simp_all
  from k have "tasks w ! k \<in> set (tasks w)" by simp
  with p have "filter (\<lambda>t. t_session t = r \<and> t_pc t = AwaitGenerate) (tasks w) \<noteq> []"
    by (auto simp: filter_empty_conv)
  then show ?thesis by (simp add: pendingOn_def)
qed simp_all

lemma wellTurned_step:
  assumes c: "consistent w" and wt: "wellTurned w r"
  shows "wellTurned (step i penv w e) r"
proof -
  from wt obtain s where s: "heap w r = Some s" and t: "turns (conversationHistory s)"
    and op: "0 < pendingOn w r \<Longrightarrow>
               conversationHistory s \<noteq> [] \<and> role (last (conversationHistory s)) = ''user''"
    by (auto simp: wellTurned_def)
  from step_history[OF c s, of i penv e] obtain s' where
    s': "heap (step i penv w e) r = Some s'"
    and h': "conversationHistory s' = conversationHistory s @ entry penv w e r" by blast
  note pe = step_pending[of i penv w e r]
  have p1: "pendingOn w r \<le> 1" using c by (rule pendingOn_le_1)
  have goal: "turns (conversationHistory s') \<and>
        (0 < pendingOn (step i penv w e) r \<longrightarrow>
           conversationHistory s' \<noteq> [] \<and> role (last (conversationHistory s')) = ''user'')"
    using entry_cases[of penv w e r]
  proof (elim disjE conjE exE)
    assume e: "entry penv w e r = []" and na: "\<not> accepts w e r"
    from pe na have "pendingOn (step i penv w e) r \<le> pendingOn w r" by (simp split: if_splits)
    then show ?thesis using e h' t op by auto
  next
    fix tx assume "accepts w e r"
      and e: "entry penv w e r = [\<lparr> role = ''user'', content = tx \<rparr>]"
    then show ?thesis using h' t by (simp add: turns_user_snoc)
  next
    fix g assume ge: "generates penv w e r" and na: "\<not> accepts w e r"
      and e: "entry penv w e r = [\<lparr> role = ''assistant'', content = g \<rparr>]"
    from generates_pending[OF ge] have pp: "0 < pendingOn w r" .
    from op[OF pp] have ne: "conversationHistory s \<noteq> []"
      and lu: "role (last (conversationHistory s)) = ''user''" by simp_all
    have tt: "turns (conversationHistory s @ [\<lparr> role = ''assistant'', content = g \<rparr>])"
      using t ne lu by (rule turns_assistant_snoc) simp
    from pe ge na p1 have "pendingOn (step i penv w e) r = 0" by (simp split: if_splits)
    then show ?thesis using tt h' e by simp
  qed
  show ?thesis unfolding wellTurned_def using s' goal by (intro exI[of _ s']) simp
qed

lemma entry_counts:
  "length (filter (\<lambda>m. role m = ''user'') (entry penv w e r)) = (if accepts w e r then 1 else 0) \<and>
   length (filter (\<lambda>m. role m = ''assistant'') (entry penv w e r)) =
     (if generates penv w e r then 1 else 0)"
  using entry_cases[of penv w e r]
proof (elim disjE conjE exE)
  assume "entry penv w e r = []" "\<not> accepts w e r"
  moreover have "\<not> generates penv w e r"
  proof
    assume "generates penv w e r"
    then obtain k b where "e = Settle k b" by (cases e) simp_all
    with \<open>generates penv w e r\<close> \<open>entry penv w e r = []\<close> entry_settle[of penv w k b r]
    show False by auto
  qed
  ultimately show ?thesis by simp
next
  fix tx assume "accepts w e r" "\<not> generates penv w e r"
    "entry penv w e r = [\<lparr> role = ''user'', content = tx \<rparr>]"
  then show ?thesis by simp
next
  fix g assume "generates penv w e r" "\<not> accepts w e r"
    "entry penv w e r = [\<lparr> role = ''assistant'', content = g \<rparr>]"
  then show ?thesis by simp
qed

lemma entries_counts:
  "length (filter (\<lambda>m. role m = ''user'') (entries i penv w es r)) = acceptedOn i penv w es r \<and>
   length (filter (\<lambda>m. role m = ''assistant'') (entries i penv w es r)) =
     generatedOn i penv w es r"
  by (induction es arbitrary: w) (simp_all add: entry_counts)

lemma run_Cons: "run i penv w (e # es) = run i penv (step i penv w e) es"
  by (simp add: run_def)

lemma run_history:
  assumes "consistent w" and "heap w r = Some s" and "wellTurned w r"
  shows "\<exists>s'. heap (run i penv w es) r = Some s' \<and>
           conversationHistory s' = conversationHistory s @ entries i penv w es r \<and>
           turns (conversationHistory s') \<and>
           acceptedOn i penv w es r + pendingOn w r =
             generatedOn i penv w es r + failedOn i penv w es r + pendingOn (run i penv w es) r"
  using assms
proof (induction es arbitrary: w s)
  case Nil
  then show ?case by (auto simp: run_def wellTurned_def)
next
  case (Cons e es)
  let ?v = "step i penv w e"
  have cv: "consistent ?v" using Cons.prems(1) by (rule consistent_step)
  from step_history[OF Cons.prems(1,2), of i penv e] obtain s1 where
    s1: "heap ?v r = Some s1"
    and h1: "conversationHistory s1 = conversationHistory s @ entry penv w e r" by blast
  have wv: "wellTurned ?v r" using Cons.prems(1,3) by (rule wellTurned_step)
  from Cons.IH[OF cv s1 wv] obtain s' where
    s': "heap (run i penv ?v es) r = Some s'"
    and h': "conversationHistory s' = conversationHistory s1 @ entries i penv ?v es r"
    and t': "turns (conversationHistory s')"
    and n': "acceptedOn i penv ?v es r + pendingOn ?v r =
             generatedOn i penv ?v es r + failedOn i penv ?v es r + pendingOn (run i penv ?v es) r"
    by blast
  note pe = step_pending[of i penv w e r]
  have "acceptedOn i penv w (e # es) r + pendingOn w r =
          generatedOn i penv w (e # es) r + failedOn i penv w (e # es) r +
          pendingOn (run i penv ?v es) r"
    using n' pe by (simp split: if_splits)
  then show ?case unfolding run_Cons using s' h' h1 t' by simp
qed

lemma step_sessions:
  "\<not> reregisters cid e \<Longrightarrow> sessions (step i penv w e) cid = sessions w cid"
proof (cases e)
  case (ProcessTranscription c tx sp)
  then show ?thesis
    by (simp add: processTranscription_begin_def block_defs split: option.splits)
qed (simp_all add: startSession_def endSession_def settle_sessions)

lemma run_sessions:
  "\<forall>e \<in> set es. \<not> reregisters cid e \<Longrightarrow> sessions (run i penv w es) cid = sessions w cid"
  by (induction es arbitrary: w) (simp_all add: run_def step_sessions)

lemma fresh_pending:
  assumes "consistent w"
  shows "pendingOn (startSession cid agent instr w) (nextRef w) = 0"
proof -
  have "\<forall>t \<in> set (tasks w). t_session t < nextRef w" using assms by (simp add: consistent_def)
  then have "filter (\<lambda>t. t_session t = nextRef w \<and> t_pc t = AwaitGenerate) (tasks w) = []"
    by (auto simp: filter_empty_conv)
  then show ?thesis by (simp add: pendingOn_def startSession_def)
qed

text \<open>
  Claim C7, as amended. Take any state the service can reach, start a session for \<open>cid\<close>,
  and let anything happen afterwards, in any interleaving: calls of the three methods, for
  this call id or another, overlapping or not, and promises that settle in any order. A
  fragment is accepted on the session object when the object is registered under its call
  id, is not busy and the speaker is not its agent; every other fragment is dropped and
  adds nothing. Then the history of the session object holds, in the order of the events,
  the user entry of each accepted fragment and the assistant entry of each generation that
  succeeded, and it is made of turns: every assistant entry comes right after a user entry.
  With \<open>N\<close> generations that succeeded, \<open>F\<close> that failed and \<open>P\<close> still awaited (\<open>P\<close> is 0 or 1),
  \<open>N + F + P\<close> fragments were accepted and the history has \<open>2 * N + F + P\<close> entries; when no
  generation failed and none is awaited it has \<open>2 * N\<close> entries, user and assistant in turn.
  The object stays the one registered under \<open>cid\<close> as long as no event starts or ends the
  session \<open>cid\<close>. (A synthesis that fails after a generation that succeeded leaves both
  entries, see C5.)
\<close>

theorem history_after_turns:
  fixes i penv pre post cid agent instr
  defines "r \<equiv> nextRef (run i penv init pre)"
    and "fresh \<equiv> startSession cid agent instr (run i penv init pre)"
  defines "w \<equiv> run i penv fresh post"
  shows "\<exists>s. heap w r = Some s \<and>
           ((\<forall>e \<in> set post. \<not> reregisters cid e) \<longrightarrow> sessionOf w cid = Some s) \<and>
           conversationHistory s = entries i penv fresh post r \<and>
           turns (conversationHistory s) \<and>
           pendingOn w r \<le> 1 \<and>
           acceptedOn i penv fresh post r =
             generatedOn i penv fresh post r + failedOn i penv fresh post r + pendingOn w r \<and>
           length (conversationHistory s) =
             2 * generatedOn i penv fresh post r + failedOn i penv fresh post r + pendingOn w r \<and>
           (failedOn i penv fresh post r = 0 \<and> pendingOn w r = 0 \<longrightarrow>
              map role (conversationHistory s) =
                concat (replicate (generatedOn i penv fresh post r) [''user'', ''assistant'']))"
proof -
  let ?base = "run i penv init pre"
  let ?new = "\<lparr> call = cid, agentUserId = agent, instructions = instr,
               conversationHistory = [], isProcessing = False, audioResponses = [] \<rparr>"
  have c0: "consistent ?base" by (intro consistent_run consistent_init)
  have c: "consistent fresh" unfolding fresh_def using c0 by (rule consistent_startSession)
  have hp: "heap fresh r = Some ?new" by (simp add: fresh_def r_def startSession_def)
  have p0: "pendingOn fresh r = 0" unfolding fresh_def r_def using c0 by (rule fresh_pending)
  have wt: "wellTurned fresh r" using hp p0 by (simp add: wellTurned_def)
  from run_history[OF c hp wt, of i penv post] obtain s where
    s: "heap w r = Some s"
    and h: "conversationHistory s = entries i penv fresh post r"
    and t: "turns (conversationHistory s)"
    and n: "acceptedOn i penv fresh post r =
             generatedOn i penv fresh post r + failedOn i penv fresh post r + pendingOn w r"
    using p0 by (auto simp: w_def)
  have cw: "consistent w" unfolding w_def using c by (rule consistent_run)
  have p1: "pendingOn w r \<le> 1" using cw by (rule pendingOn_le_1)
  note cnt = entries_counts[of i penv fresh post r]
  have us: "length (filter (\<lambda>m. role m = ''user'') (conversationHistory s)) =
              acceptedOn i penv fresh post r" unfolding h using cnt by simp
  have as: "length (filter (\<lambda>m. role m = ''assistant'') (conversationHistory s)) =
              generatedOn i penv fresh post r" unfolding h using cnt by simp
  have len: "length (conversationHistory s) =
             2 * generatedOn i penv fresh post r + failedOn i penv fresh post r + pendingOn w r"
    using turns_length[OF t] us as n by simp
  have alt: "failedOn i penv fresh post r = 0 \<and> pendingOn w r = 0 \<longrightarrow>
              map role (conversationHistory s) =
                concat (replicate (generatedOn i penv fresh post r) [''user'', ''assistant''])"
  proof
    assume "failedOn i penv fresh post r = 0 \<and> pendingOn w r = 0"
    then have "length (filter (\<lambda>m. role m = ''user'') (conversationHistory s)) =
                 length (filter (\<lambda>m. role m = ''assistant'') (conversationHistory s))"
      using us as n by simp
    from turns_alternate[OF t this] show "map role (conversationHistory s) =
                concat (replicate (generatedOn i penv fresh post r) [''user'', ''assistant''])"
      using as by simp
  qed
  have reg: "(\<forall>e \<in> set post. \<not> reregisters cid e) \<longrightarrow> sessionOf w cid = Some s"
  proof
    assume "\<forall>e \<in> set post. \<not> reregisters cid e"
    then have "sessions w cid = sessions fresh cid" unfolding w_def by (rule run_sessions)
    also have "\<dots> = Some r" by (simp add: fresh_def r_def startSession_def)
    finally show "sessionOf w cid = Some s" using s by (simp add: sessionOf_def)
  qed
  from s reg h t p1 n len alt show ?thesis by blast
qed

text \<open>
  As the claim states it, counting only the successful turns, the length \<open>2 * N\<close> fails as
  soon as the generation of an accepted turn fails: its user entry stays. Below one turn
  succeeded and the history has three entries, two user entries in a row.
\<close>

theorem failed_turn_leaves_user_entry:
  "filter (succeeds exampleEnv ''call-1'' ''agent-x'')
     [Process ''call-1'' ''Hello?'' ''user-1''
        (exampleAnswers\<lparr> generateContent := Inl (Error ''503'') \<rparr>),
      Process ''call-1'' ''What is the weather?'' ''user-1'' exampleAnswers] =
     [Process ''call-1'' ''What is the weather?'' ''user-1'' exampleAnswers] \<and>
   map_option conversationHistory
     (sessionOf
        (performAll Durable exampleEnv exampleWorld
           [Process ''call-1'' ''Hello?'' ''user-1''
              (exampleAnswers\<lparr> generateContent := Inl (Error ''503'') \<rparr>),
            Process ''call-1'' ''What is the weather?'' ''user-1'' exampleAnswers])
        ''call-1'') =
     Some [\<lparr> role = ''user'', content = ''Hello?'' \<rparr>,
           \<lparr> role = ''user'', content = ''What is the weather?'' \<rparr>,
           \<lparr> role = ''assistant'', content = ''It is sunny.'' \<rparr>]"
  by (simp add: performAll_def call_defs example_eval sessionOf_def generated_def)

theorem history_after_turns_witness:
  "\<exists>s. sessionOf
          (run Durable exampleEnv exampleWorld
             [ProcessTranscription ''call-1'' ''What is the weather?'' ''user-1'',
              ProcessTranscription ''call-1'' ''Hello?'' ''user-1'',
              Settle 0 exampleAnswers, Settle 0 exampleAnswers,
              ProcessTranscription ''call-1'' ''Are you there?'' ''user-1'',
              Settle 0 exampleAnswers, Settle 0 exampleAnswers,
              ProcessTranscription ''call-1'' ''Thanks'' ''user-1'',
              Settle 0 exampleAnswers, Settle 0 exampleAnswers,
              Settle 0 exampleAnswers, Settle 0 exampleAnswers])
          ''call-1'' = Some s \<and>
        conversationHistory s =
          [\<lparr> role = ''user'', content = ''What is the weather?'' \<rparr>,
           \<lparr> role = ''assistant'', content = ''It is sunny.'' \<rparr>,
           \<lparr> role = ''user'', content = ''Thanks'' \<rparr>,
           \<lparr> role = ''assistant'', content = ''It is sunny.'' \<rparr>] \<and>
        length (conversationHistory s) = 4 \<and>
        map role (conversationHistory s) = [''user'', ''assistant'', ''user'', ''assistant'']"
proof -
  let ?post = "[ProcessTranscription ''call-1'' ''What is the weather?'' ''user-1'',
              ProcessTranscription ''call-1'' ''Hello?'' ''user-1'',
              Settle 0 exampleAnswers, Settle 0 exampleAnswers,
              ProcessTranscription ''call-1'' ''Are you there?'' ''user-1'',
              Settle 0 exampleAnswers, Settle 0 exampleAnswers,
              ProcessTranscription ''call-1'' ''Thanks'' ''user-1'',
              Settle 0 exampleAnswers, Settle 0 exampleAnswers,
              Settle 0 exampleAnswers, Settle 0 exampleAnswers]"
  have w: "startSession ''call-1'' ''agent-x'' ''Be concise.'' (run Durable exampleEnv init []) =
             exampleWorld"
    by (simp add: exampleWorld_def run_def)
  have r: "nextRef (run Durable exampleEnv init []) = 0" by (simp add: run_def init_def)
  have nr: "\<forall>e \<in> set ?post. \<not> reregisters ''call-1'' e" by simp
  have en: "entries Durable exampleEnv exampleWorld ?post 0 =
          [\<lparr> role = ''user'', content = ''What is the weather?'' \<rparr>,
           \<lparr> role = ''assistant'', content = ''It is sunny.'' \<rparr>,
           \<lparr> role = ''user'', content = ''Thanks'' \<rparr>,
           \<lparr> role = ''assistant'', content = ''It is sunny.'' \<rparr>]"
    by (simp add: settle_def resume_def after_defs block_defs processTranscription_begin_def
          example_eval generated_def)
  have ge: "generatedOn Durable exampleEnv exampleWorld ?post 0 = 2"
    by (simp add: settle_def resume_def after_defs block_defs processTranscription_begin_def
          example_eval generated_def)
  have fa: "failedOn Durable exampleEnv exampleWorld ?post 0 = 0"
    by (simp add: settle_def resume_def after_defs block_defs processTranscription_begin_def
          example_eval generated_def)
  have pe: "pendingOn (run Durable exampleEnv exampleWorld ?post) 0 = 0"
    by (simp add: call_defs example_eval pendingOn_def)
  from history_after_turns[where i = Durable and penv = exampleEnv and pre = "[]"
      and post = ?post and cid = "''call-1''" and agent = "''agent-x''"
      and instr = "''Be concise.''", unfolded w r]
  show ?thesis
  proof (elim exE conjE)
    fix s
    assume reg: "(\<forall>e \<in> set ?post. \<not> reregisters ''call-1'' e) \<longrightarrow>
        sessionOf (run Durable exampleEnv exampleWorld ?post) ''call-1'' = Some s"
      and h: "conversationHistory s = entries Durable exampleEnv exampleWorld ?post 0"
      and len: "length (conversationHistory s) =
        2 * generatedOn Durable exampleEnv exampleWorld ?post 0 +
        failedOn Durable exampleEnv exampleWorld ?post 0 +
        pendingOn (run Durable exampleEnv exampleWorld ?post) 0"
      and alt: "failedOn Durable exampleEnv exampleWorld ?post 0 = 0 \<and>
        pendingOn (run Durable exampleEnv exampleWorld ?post) 0 = 0 \<longrightarrow>
        map role (conversationHistory s) =
          concat (replicate (generatedOn Durable exampleEnv exampleWorld ?post 0)
                    [''user'', ''assistant''])"
    from reg nr have f: "sessionOf (run Durable exampleEnv exampleWorld ?post) ''call-1'' = Some s"
      by (rule mp)
    from len have l: "length (conversationHistory s) = 4" unfolding ge fa pe by simp
    from alt have m: "map role (conversationHistory s) =
        [''user'', ''assistant'', ''user'', ''assistant'']"
      unfolding ge fa pe by (simp add: numeral_2_eq_2)
    note h' = h[unfolded en]
    show ?thesis by (rule exI[of _ s], intro conjI, rule f, rule h', rule l, rule m)
  qed
qed

subsection \<open>The two variants compared\<close>

lemma pt_dangling:
  "sessions w cid = Some r \<Longrightarrow> heap w r = None \<Longrightarrow> processTranscription i penv b cid tx sp w = w"
  by (simp add: call_defs)

lemma pt_accepted_texts:
  assumes "sessions w cid = Some r" and "heap w r = Some s"
    and "\<not> isProcessing s" and "sp \<noteq> agentUserId s"
    and "ensureAudioDir b = Inr ()" and "writeFile b = Inr ()"
  shows "\<exists>s'. heap (processTranscription i penv b cid tx sp w) r = Some s' \<and>
           call s' = call s \<and> agentUserId s' = agentUserId s \<and> instructions s' = instructions s \<and>
           conversationHistory s' = conversationHistory s @ turnHistory penv b tx \<and>
           \<not> isProcessing s' \<and>
           map text (audioResponses s') = map text (audioResponses s) @ turnTexts penv b \<and>
           map timestamp (audioResponses s') =
             map timestamp (audioResponses s) @ map (\<lambda>g. newDate b) (turnTexts penv b)"
  using assms
  by (cases i)
     (auto simp add: call_defs turnHistory_def turnTexts_def split: sum.splits option.splits)

lemma pt_accepted_errors:
  assumes "sessions w cid = Some r" and "heap w r = Some s"
    and "\<not> isProcessing s" and "sp \<noteq> agentUserId s"
    and "ensureAudioDir b = Inr ()" and "writeFile b = Inr ()"
  shows "consoleErrors (processTranscription i penv b cid tx sp w) =
           consoleErrors w @ turnErrors penv b"
  using assms
  by (cases i)
     (auto simp add: call_defs turnErrors_def split: sum.splits option.splits)

lemma pt_written_ephemeral:
  "written (processTranscription Ephemeral penv b cid tx sp w) = written w"
  by (auto simp add: call_defs split: sum.splits option.splits)

lemma sameUpToAudioD:
  assumes "sameUpToAudio w v"
  shows "sessions w = sessions v" and "nextRef w = nextRef v" and "tasks w = tasks v"
    and "consoleErrors w = consoleErrors v"
    and "rel_option similarSession (heap w r) (heap v r)"
  using assms by (simp_all add: sameUpToAudio_def)

lemma sameUpToAudio_process:
  assumes sim: "sameUpToAudio w v"
    and wr: "ensureAudioDir b = Inr ()" "writeFile b = Inr ()"
  shows "sameUpToAudio (processTranscription Durable penv b cid tx sp w)
           (processTranscription Ephemeral penv b cid tx sp v)"
proof -
  let ?w' = "processTranscription Durable penv b cid tx sp w"
  let ?v' = "processTranscription Ephemeral penv b cid tx sp v"
  note d = sameUpToAudioD[OF sim]
  note fw = pt_frame[of Durable penv b cid tx sp w]
  note fv = pt_frame[of Ephemeral penv b cid tx sp v]
  show ?thesis
  proof (cases "sessions w cid")
    case None
    then have "?w' = w" by (intro pt_dropped) simp
    moreover have "?v' = v" using None d(1) by (intro pt_dropped) simp
    ultimately show ?thesis using sim by simp
  next
    case (Some r)
    have sv: "sessions v cid = Some r" using Some d(1) by simp
    have rel: "rel_option similarSession (heap w r) (heap v r)" by (rule d(5))
    show ?thesis
    proof (cases "heap w r")
      case None
      then have hv: "heap v r = None" using rel by (cases "heap v r") simp_all
      have "?w' = w" using Some None by (rule pt_dangling)
      moreover have "?v' = v" using sv hv by (rule pt_dangling)
      ultimately show ?thesis using sim by simp
    next
      case hw: (Some s)
      then obtain u where hv: "heap v r = Some u" and su: "similarSession s u"
        using rel by (cases "heap v r") simp_all
      have ip: "isProcessing u = isProcessing s" and ag: "agentUserId u = agentUserId s"
        using su by (simp_all add: similarSession_def)
      show ?thesis
      proof (cases "isProcessing s \<or> sp = agentUserId s")
        case True
        have "?w' = w" by (rule pt_dropped) (use Some hw True in blast)
        moreover have "?v' = v" by (rule pt_dropped) (use sv hv True ip ag in auto)
        ultimately show ?thesis using sim by simp
      next
        case False
        then have np: "\<not> isProcessing s" and na: "sp \<noteq> agentUserId s" by simp_all
        have npu: "\<not> isProcessing u" and nau: "sp \<noteq> agentUserId u" using np na ip ag by simp_all
        from pt_accepted_texts[OF Some hw np na wr, of Durable penv tx]
        obtain s' where s': "heap ?w' r = Some s'" "call s' = call s"
          "agentUserId s' = agentUserId s" "instructions s' = instructions s"
          "conversationHistory s' = conversationHistory s @ turnHistory penv b tx"
          "\<not> isProcessing s'"
          "map text (audioResponses s') = map text (audioResponses s) @ turnTexts penv b"
          "map timestamp (audioResponses s') =
             map timestamp (audioResponses s) @ map (\<lambda>g. newDate b) (turnTexts penv b)"
          by blast
        from pt_accepted_texts[OF sv hv npu nau wr, of Ephemeral penv tx]
        obtain u' where u': "heap ?v' r = Some u'" "call u' = call u"
          "agentUserId u' = agentUserId u" "instructions u' = instructions u"
          "conversationHistory u' = conversationHistory u @ turnHistory penv b tx"
          "\<not> isProcessing u'"
          "map text (audioResponses u') = map text (audioResponses u) @ turnTexts penv b"
          "map timestamp (audioResponses u') =
             map timestamp (audioResponses u) @ map (\<lambda>g. newDate b) (turnTexts penv b)"
          by blast
        have new: "similarSession s' u'"
          using s' u' su by (simp add: similarSession_def)
        have ce: "consoleErrors ?w' = consoleErrors ?v'"
          using pt_accepted_errors[OF Some hw np na wr, of Durable penv tx]
            pt_accepted_errors[OF sv hv npu nau wr, of Ephemeral penv tx] d(4)
          by simp
        have hp: "\<forall>q. rel_option similarSession (heap ?w' q) (heap ?v' q)"
        proof
          fix q
          show "rel_option similarSession (heap ?w' q) (heap ?v' q)"
          proof (cases "q = r")
            case True
            then show ?thesis using s'(1) u'(1) new by simp
          next
            case False
            then have "heap ?w' q = heap w q" using fw Some by simp
            moreover have "heap ?v' q = heap v q" using fv sv False by simp
            ultimately show ?thesis using sameUpToAudioD(5)[OF sim, of q] by simp
          qed
        qed
        show ?thesis
          unfolding sameUpToAudio_def using fw fv d(1-3) ce hp by simp
      qed
    qed
  qed
qed

lemma sameUpToAudio_perform:
  assumes "sameUpToAudio w v" and "writesSucceed c"
  shows "sameUpToAudio (perform Durable penv w c) (perform Ephemeral penv v c)"
proof (cases c)
  case (Start cid agent instr)
  note d = sameUpToAudioD[OF assms(1)]
  show ?thesis
    unfolding Start perform.simps sameUpToAudio_def startSession_def
    using d(1-4) d(5) by (simp add: similarSession_def)
next
  case (End cid)
  note d = sameUpToAudioD[OF assms(1)]
  show ?thesis
    unfolding End perform.simps sameUpToAudio_def endSession_def
    using d(1-4) d(5) by simp
next
  case (Process cid tx sp b)
  then have "ensureAudioDir b = Inr ()" "writeFile b = Inr ()" using assms(2) by simp_all
  with assms(1) show ?thesis unfolding Process perform.simps by (rule sameUpToAudio_process)
qed

lemma sameUpToAudio_performAll:
  "sameUpToAudio w v \<Longrightarrow> \<forall>c \<in> set cs. writesSucceed c \<Longrightarrow>
   sameUpToAudio (performAll Durable penv w cs) (performAll Ephemeral penv v cs)"
proof (induction cs arbitrary: w v)
  case Nil
  then show ?case by (simp add: performAll_def)
next
  case (Cons c cs)
  have "sameUpToAudio (perform Durable penv w c) (perform Ephemeral penv v c)"
    using Cons.prems by (intro sameUpToAudio_perform) simp_all
  from Cons.IH[OF this] Cons.prems(2) show ?case by (simp add: performAll_def)
qed

lemma written_performAll_ephemeral:
  "written (performAll Ephemeral penv w cs) = written w"
proof (induction cs arbitrary: w)
  case Nil
  show ?case by (simp add: performAll_def)
next
  case (Cons c cs)
  have "written (perform Ephemeral penv w c) = written w"
    by (cases c) (simp_all add: startSession_def endSession_def pt_written_ephemeral)
  then show ?case using Cons[of "perform Ephemeral penv w c"] by (simp add: performAll_def)
qed

lemma sameUpToAudio_refl: "sameUpToAudio w w"
  by (simp add: sameUpToAudio_def similarSession_def option.rel_refl)

lemma sameUpToAudio_sessionOf:
  assumes "sameUpToAudio w v"
  shows "map_option conversationHistory (sessionOf w cid) =
           map_option conversationHistory (sessionOf v cid) \<and>
         map text (getAudioResponses cid w) = map text (getAudioResponses cid v)"
proof -
  note d = sameUpToAudioD[OF assms]
  show ?thesis
  proof (cases "sessions w cid")
    case None
    then show ?thesis using d(1) by (simp add: sessionOf_def getAudioResponses_def)
  next
    case (Some r)
    have "rel_option similarSession (heap w r) (heap v r)" by (rule d(5))
    then show ?thesis using Some d(1)
      by (cases "heap w r"; cases "heap v r")
         (simp_all add: sessionOf_def getAudioResponses_def similarSession_def)
  qed
qed

text \<open>
  Claim C10, as amended. Give both variants the same calls of \<open>startSession\<close>,
  \<open>processTranscription\<close> and \<open>endSession\<close>, one after the other and each awaited before
  the next is made, with the same answers of the
  backends and the clock, and let every artifact write of the durable variant succeed.
  Then the two services agree on the registry, on the busy flags, on the errors reported,
  and, session by session, on \<open>conversationHistory\<close> and on the texts and timestamps of the
  responses recorded: they can differ only in the \<open>audioUrl\<close> values and in the files
  written, of which the ephemeral variant has none.
\<close>

theorem variants_agree_up_to_audio:
  assumes "\<forall>c \<in> set cs. writesSucceed c"
  shows "sameUpToAudio (performAll Durable penv init cs) (performAll Ephemeral penv init cs) \<and>
         map_option conversationHistory (sessionOf (performAll Durable penv init cs) cid) =
           map_option conversationHistory (sessionOf (performAll Ephemeral penv init cs) cid) \<and>
         map text (getAudioResponses cid (performAll Durable penv init cs)) =
           map text (getAudioResponses cid (performAll Ephemeral penv init cs)) \<and>
         written (performAll Ephemeral penv init cs) = []"
proof -
  have sim: "sameUpToAudio (performAll Durable penv init cs) (performAll Ephemeral penv init cs)"
    using sameUpToAudio_refl assms by (rule sameUpToAudio_performAll)
  have "written (performAll Ephemeral penv init cs) = []"
    by (simp add: written_performAll_ephemeral init_def)
  with sim sameUpToAudio_sessionOf[OF sim, of cid] show ?thesis by simp
qed

text \<open>
  As the claim states it, for every sequence of calls, the two variants do not agree: the
  durable variant keeps the session busy while it makes the directory and writes the file,
  the ephemeral variant has released it by then. Below a second fragment arrives right
  after the synthesis of the first turn has settled; the durable variant drops it, the
  ephemeral variant accepts it, and once nothing is in flight any more the histories have
  two and four entries and the responses recorded are one and two. Every write succeeds.
\<close>

theorem variants_differ_when_calls_overlap:
  "map_option conversationHistory
     (sessionOf (run Durable exampleEnv init
        [StartSession ''call-1'' ''agent-x'' ''Be concise.'',
         ProcessTranscription ''call-1'' ''first'' ''user-1'',
         Settle 0 exampleAnswers, Settle 0 exampleAnswers,
         ProcessTranscription ''call-1'' ''second'' ''user-1'',
         Settle 0 exampleAnswers, Settle 0 exampleAnswers,
         Settle 0 exampleAnswers, Settle 0 exampleAnswers]) ''call-1'') =
     Some [\<lparr> role = ''user'', content = ''first'' \<rparr>,
           \<lparr> role = ''assistant'', content = ''It is sunny.'' \<rparr>] \<and>
   map_option conversationHistory
     (sessionOf (run Ephemeral exampleEnv init
        [StartSession ''call-1'' ''agent-x'' ''Be concise.'',
         ProcessTranscription ''call-1'' ''first'' ''user-1'',
         Settle 0 exampleAnswers, Settle 0 exampleAnswers,
         ProcessTranscription ''call-1'' ''second'' ''user-1'',
         Settle 0 exampleAnswers, Settle 0 exampleAnswers,
         Settle 0 exampleAnswers, Settle 0 exampleAnswers]) ''call-1'') =
     Some [\<lparr> role = ''user'', content = ''first'' \<rparr>,
           \<lparr> role = ''assistant'', content = ''It is sunny.'' \<rparr>,
           \<lparr> role = ''user'', content = ''second'' \<rparr>,
           \<lparr> role = ''assistant'', content = ''It is sunny.'' \<rparr>] \<and>
   map text (getAudioResponses ''call-1'' (run Durable exampleEnv init
        [StartSession ''call-1'' ''agent-x'' ''Be concise.'',
         ProcessTranscription ''call-1'' ''first'' ''user-1'',
         Settle 0 exampleAnswers, Settle 0 exampleAnswers,
         ProcessTranscription ''call-1'' ''second'' ''user-1'',
         Settle 0 exampleAnswers, Settle 0 exampleAnswers,
         Settle 0 exampleAnswers, Settle 0 exampleAnswers])) = [''It is sunny.''] \<and>
   map text (getAudioResponses ''call-1'' (run Ephemeral exampleEnv init
        [StartSession ''call-1'' ''agent-x'' ''Be concise.'',
         ProcessTranscription ''call-1'' ''first'' ''user-1'',
         Settle 0 exampleAnswers, Settle 0 exampleAnswers,
         ProcessTranscription ''call-1'' ''second'' ''user-1'',
         Settle 0 exampleAnswers, Settle 0 exampleAnswers,
         Settle 0 exampleAnswers, Settle 0 exampleAnswers])) =
     [''It is sunny.'', ''It is sunny.''] \<and>
   tasks (run Durable exampleEnv init
        [StartSession ''call-1'' ''agent-x'' ''Be concise.'',
         ProcessTranscription ''call-1'' ''first'' ''user-1'',
         Settle 0 exampleAnswers, Settle 0 exampleAnswers,
         ProcessTranscription ''call-1'' ''second'' ''user-1'',
         Settle 0 exampleAnswers, Settle 0 exampleAnswers,
         Settle 0 exampleAnswers, Settle 0 exampleAnswers]) = [] \<and>
   tasks (run Ephemeral exampleEnv init
        [StartSession ''call-1'' ''agent-x'' ''Be concise.'',
         ProcessTranscription ''call-1'' ''first'' ''user-1'',
         Settle 0 exampleAnswers, Settle 0 exampleAnswers,
         ProcessTranscription ''call-1'' ''second'' ''user-1'',
         Settle 0 exampleAnswers, Settle 0 exampleAnswers,
         Settle 0 exampleAnswers, Settle 0 exampleAnswers]) = []"
  by (simp add: call_defs example_eval sessionOf_def getAudioResponses_def
        audioFileName_def audioUrlOf_def show_nat.simps)

theorem variants_agree_up_to_audio_witness:
  "map_option conversationHistory
     (sessionOf (performAll Durable exampleEnv init
        [Start ''call-1'' ''agent-x'' ''Be concise.'',
         Process ''call-1'' ''What is the weather?'' ''user-1'' exampleAnswers]) ''call-1'') =
   map_option conversationHistory
     (sessionOf (performAll Ephemeral exampleEnv init
        [Start ''call-1'' ''agent-x'' ''Be concise.'',
         Process ''call-1'' ''What is the weather?'' ''user-1'' exampleAnswers]) ''call-1'') \<and>
   map text (getAudioResponses ''call-1'' (performAll Durable exampleEnv init
        [Start ''call-1'' ''agent-x'' ''Be concise.'',
         Process ''call-1'' ''What is the weather?'' ''user-1'' exampleAnswers])) =
   map text (getAudioResponses ''call-1'' (performAll Ephemeral exampleEnv init
        [Start ''call-1'' ''agent-x'' ''Be concise.'',
         Process ''call-1'' ''What is the weather?'' ''user-1'' exampleAnswers])) \<and>
   written (performAll Ephemeral exampleEnv init
        [Start ''call-1'' ''agent-x'' ''Be concise.'',
         Process ''call-1'' ''What is the weather?'' ''user-1'' exampleAnswers]) = [] \<and>
   written (performAll Durable exampleEnv init
        [Start ''call-1'' ''agent-x'' ''Be concise.'',
         Process ''call-1'' ''What is the weather?'' ''user-1'' exampleAnswers]) =
     [(''call-1-5.wav'', [82, 73, 70, 70])]"
proof -
  let ?cs = "[Start ''call-1'' ''agent-x'' ''Be concise.'',
         Process ''call-1'' ''What is the weather?'' ''user-1'' exampleAnswers]"
  have ws: "\<forall>c \<in> set ?cs. writesSucceed c"
    by (simp add: ensureAudioDir_def exampleAnswers_def)
  have wr: "written (performAll Durable exampleEnv init ?cs) = [(''call-1-5.wav'', [82, 73, 70, 70])]"
    by (simp add: performAll_def call_defs example_eval audioFileName_def show_nat.simps)
  from variants_agree_up_to_audio[OF ws, of exampleEnv "''call-1''"] wr
  show ?thesis by simp
qed

section \<open>Properties of the retrieval endpoint\<close>

lemma getAudioResponses_no_session:
  "sessions w m = None \<Longrightarrow> getAudioResponses m w = []"
  by (simp add: getAudioResponses_def sessionOf_def)

text \<open>
  Claim C8. For a call id that is present: when the call has no recorded responses, and in
  particular when it has no session, the handler answers 200 with
  \<open>{ audioUrl: null, text: null }\<close>; otherwise it answers 200 with the \<open>audioUrl\<close>, the \<open>text\<close>
  and the ISO rendering of the \<open>timestamp\<close> of the last entry of the responses. A missing
  (or empty) call id is answered with status 400, and a failure inside the handler with
  status 500. Apart from the error it logs in the last case, the handler changes nothing.
\<close>

theorem retrieval_endpoint:
  "(m \<noteq> [] \<and> getAudioResponses m w = [] \<longrightarrow>
      GET (Inr (Some m)) w = (w, \<lparr> status = 200, body = NoAudioJson \<rparr>)) \<and>
   (m \<noteq> [] \<and> sessions w m = None \<longrightarrow>
      GET (Inr (Some m)) w = (w, \<lparr> status = 200, body = NoAudioJson \<rparr>)) \<and>
   (m \<noteq> [] \<and> getAudioResponses m w \<noteq> [] \<longrightarrow>
      GET (Inr (Some m)) w =
        (w, \<lparr> status = 200,
              body = LatestJson (audioUrl (last (getAudioResponses m w)))
                       (text (last (getAudioResponses m w)))
                       (ISOString (timestamp (last (getAudioResponses m w)))) \<rparr>)) \<and>
   (unset meetingId \<longrightarrow>
      GET (Inr meetingId) w = (w, \<lparr> status = 400, body = ErrorJson ''Missing meetingId'' \<rparr>)) \<and>
   snd (GET (Inl e) w) = \<lparr> status = 500, body = ErrorJson ''Failed to get audio response'' \<rparr>"
proof (intro conjI impI)
  assume "m \<noteq> [] \<and> getAudioResponses m w = []"
  then show "GET (Inr (Some m)) w = (w, \<lparr> status = 200, body = NoAudioJson \<rparr>)"
    by (simp add: GET_def unset_def)
next
  assume "m \<noteq> [] \<and> sessions w m = None"
  then show "GET (Inr (Some m)) w = (w, \<lparr> status = 200, body = NoAudioJson \<rparr>)"
    by (simp add: GET_def unset_def getAudioResponses_no_session)
next
  assume "m \<noteq> [] \<and> getAudioResponses m w \<noteq> []"
  then show "GET (Inr (Some m)) w =
        (w, \<lparr> status = 200,
              body = LatestJson (audioUrl (last (getAudioResponses m w)))
                       (text (last (getAudioResponses m w)))
                       (ISOString (timestamp (last (getAudioResponses m w)))) \<rparr>)"
    by (simp add: GET_def unset_def Let_def last_conv_nth)
next
  assume "unset meetingId"
  then show "GET (Inr meetingId) w = (w, \<lparr> status = 400, body = ErrorJson ''Missing meetingId'' \<rparr>)"
    by (simp add: GET_def)
next
  show "snd (GET (Inl e) w) = \<lparr> status = 500, body = ErrorJson ''Failed to get audio response'' \<rparr>"
    by (simp add: GET_def)
qed

theorem retrieval_endpoint_witness:
  "GET (Inr (Some ''call-1''))
     (performAll Durable exampleEnv init
        [Start ''call-1'' ''agent-x'' ''Be concise.'',
         Process ''call-1'' ''What is the weather?'' ''user-1'' exampleAnswers,
         Process ''call-1'' ''And tomorrow?'' ''user-1''
           (exampleAnswers\<lparr> generateContent := Inr ''Rain.'', dateNow := 8, newDate := 9 \<rparr>)]) =
   (performAll Durable exampleEnv init
        [Start ''call-1'' ''agent-x'' ''Be concise.'',
         Process ''call-1'' ''What is the weather?'' ''user-1'' exampleAnswers,
         Process ''call-1'' ''And tomorrow?'' ''user-1''
           (exampleAnswers\<lparr> generateContent := Inr ''Rain.'', dateNow := 8, newDate := 9 \<rparr>)],
    \<lparr> status = 200,
      body = LatestJson ''/audio-responses/call-1-8.wav'' ''Rain.'' (ISOString 9) \<rparr>) \<and>
   GET (Inr (Some ''call-1'')) exampleWorld = (exampleWorld, \<lparr> status = 200, body = NoAudioJson \<rparr>) \<and>
   GET (Inr (Some ''call-2'')) exampleWorld = (exampleWorld, \<lparr> status = 200, body = NoAudioJson \<rparr>) \<and>
   GET (Inr None) exampleWorld =
     (exampleWorld, \<lparr> status = 400, body = ErrorJson ''Missing meetingId'' \<rparr>)"
proof -
  let ?w = "performAll Durable exampleEnv init
        [Start ''call-1'' ''agent-x'' ''Be concise.'',
         Process ''call-1'' ''What is the weather?'' ''user-1'' exampleAnswers,
         Process ''call-1'' ''And tomorrow?'' ''user-1''
           (exampleAnswers\<lparr> generateContent := Inr ''Rain.'', dateNow := 8, newDate := 9 \<rparr>)]"
  have rs: "getAudioResponses ''call-1'' ?w =
      [\<lparr> text = ''It is sunny.'', audioUrl = ''/audio-responses/call-1-5.wav'', timestamp = 6 \<rparr>,
       \<lparr> text = ''Rain.'', audioUrl = ''/audio-responses/call-1-8.wav'', timestamp = 9 \<rparr>]"
    by (simp add: performAll_def call_defs example_eval getAudioResponses_def sessionOf_def
          audioFileName_def audioUrlOf_def show_nat.simps)
  have em: "getAudioResponses ''call-1'' exampleWorld = []"
    by (simp add: getAudioResponses_def sessionOf_def exampleWorld_def startSession_def init_def)
  have ns: "sessions exampleWorld ''call-2'' = None"
    by (simp add: exampleWorld_def startSession_def init_def)
  have un: "unset None" by (simp add: unset_def)
  from retrieval_endpoint[of "''call-1''" ?w None undefined]
    retrieval_endpoint[of "''call-1''" exampleWorld None undefined]
    retrieval_endpoint[of "''call-2''" exampleWorld None undefined] rs em ns un
  show ?thesis by simp
qed

section \<open>Properties of the playback poller\<close>












end
